theory Spec2Isabelle
  imports Main
begin

section \<open>EnergyGrid data aggregator: a model of the client\<close>

text \<open>
  The client fetches telemetry for a fixed population of devices: it generates the
  serial numbers, splits them into batches, wraps every batch in a retrying fetch, and
  pushes the fetches one by one through a rate limiter.  The JavaScript sources are
  \<^verbatim>\<open>utils/batchManager.js\<close>, \<^verbatim>\<open>services/apiClient.js\<close>,
  \<^verbatim>\<open>services/rateLimiter.js\<close>, \<^verbatim>\<open>core/aggregator.js\<close> and
  \<^verbatim>\<open>config/constants.js\<close>.  Logger calls and \<^verbatim>\<open>console.log\<close> only print and are left
  out; the MD5 signature of a request is computed by the platform and does not
  influence the control flow, so a request is represented by its serial numbers.
\<close>

subsection \<open>Configuration (config/constants.js)\<close>

record config =
  TOTAL_DEVICES :: nat
  DEVICE_SN_PREFIX :: string
  BATCH_SIZE :: int
  REQUEST_INTERVAL_MS :: int
  MAX_RETRIES :: nat
  RETRY_DELAY_MS :: int

definition constants :: config where
  "constants = \<lparr> TOTAL_DEVICES = 500, DEVICE_SN_PREFIX = ''SN-'', BATCH_SIZE = 10,
                 REQUEST_INTERVAL_MS = 1000, MAX_RETRIES = 3, RETRY_DELAY_MS = 2000 \<rparr>"

subsection \<open>BatchManager (utils/batchManager.js)\<close>

text \<open>
  \<^verbatim>\<open>Array.prototype.slice(start, end)\<close>: a negative index counts from the end of the
  array, both indices are clamped to the array, and an empty range gives the empty
  array.
\<close>

definition slice :: "'a list \<Rightarrow> int \<Rightarrow> int \<Rightarrow> 'a list" where
  "slice xs start end =
     (let len = int (length xs);
          k = (if start < 0 then max (len + start) 0 else min start len);
          final = (if end < 0 then max (len + end) 0 else min end len)
      in take (nat (final - k)) (drop (nat k) xs))"

text \<open>
  The loop of \<^verbatim>\<open>createBatches\<close>,
  \<^verbatim>\<open>for (let i = 0; i < array.length; i += batchSize) batches.push(array.slice(i, i + batchSize))\<close>.
  Nothing in the source bounds the number of iterations, so the loop is a partial
  function: \<open>None\<close> is the loop that never leaves.
\<close>

partial_function (option) createBatches_loop ::
  "'a list \<Rightarrow> int \<Rightarrow> int \<Rightarrow> 'a list list \<Rightarrow> 'a list list option" where
  "createBatches_loop array batchSize i batches =
     (if i < int (length array)
      then createBatches_loop array batchSize (i + batchSize)
             (batches @ [slice array i (i + batchSize)])
      else Some batches)"

declare createBatches_loop.simps [code]

definition createBatches :: "'a list \<Rightarrow> int \<Rightarrow> 'a list list option" where
  "createBatches array batchSize = createBatches_loop array batchSize 0 []"

text \<open>\<^verbatim>\<open>Number.prototype.toString()\<close> on a natural number, and \<^verbatim>\<open>padStart\<close> with a
  one-character filler.\<close>

definition digit :: "nat \<Rightarrow> char" where
  "digit n = ''0123456789'' ! n"

function toString :: "nat \<Rightarrow> string" where
  "toString n = (if n < 10 then [digit n] else toString (n div 10) @ [digit (n mod 10)])"
  by pat_completeness auto
termination
  by (relation "measure id") auto

definition padStart :: "string \<Rightarrow> nat \<Rightarrow> char \<Rightarrow> string" where
  "padStart s targetLength c = replicate (targetLength - length s) c @ s"

definition generateSerialNumbers :: "nat \<Rightarrow> string \<Rightarrow> string list" where
  "generateSerialNumbers count prefix =
     map (\<lambda>i. prefix @ padStart (toString i) 3 (CHR ''0'')) [0..<count]"

subsection \<open>The world the client runs in\<close>

text \<open>
  What a response carries in \<^verbatim>\<open>response.data.data\<close> is whatever the server sent: an
  array, \<^verbatim>\<open>null\<close>, nothing at all (\<^verbatim>\<open>undefined\<close>), or any other value.  Reading a
  property of \<^verbatim>\<open>null\<close> or \<^verbatim>\<open>undefined\<close> throws; reading one of any other value does
  not.  A device record, like every other value that is neither an array nor
  \<^verbatim>\<open>null\<close> nor \<^verbatim>\<open>undefined\<close>, is opaque (\<open>'d\<close>).
\<close>

datatype 'd jsvalue = Null | Undefined | Device 'd | Array "'d jsvalue list"

fun nullish :: "'d jsvalue \<Rightarrow> bool" where
  "nullish Null = True"
| "nullish Undefined = True"
| "nullish (Device d) = False"
| "nullish (Array vs) = False"

text \<open>\<^verbatim>\<open>Array.prototype.flat()\<close>, one level deep: an element that is an array is replaced
  by its elements, every other element stays.\<close>

fun spread :: "'d jsvalue \<Rightarrow> 'd jsvalue list" where
  "spread (Array vs) = vs"
| "spread v = [v]"

definition flat :: "'d jsvalue list \<Rightarrow> 'd jsvalue list" where
  "flat vs = concat (map spread vs)"

text \<open>
  A permanently failed batch is remembered as an object
  \<^verbatim>\<open>{ batch, serialNumbers, error }\<close>; the summary written at the end of a run is
  \<^verbatim>\<open>{ totalDevices, successfulFetches, failedFetches, timestamp, data, errors }\<close>
  (the timestamp is kept as the clock value instead of its ISO rendering).
\<close>

record failure =
  batch :: nat
  serialNumbers :: "string list"
  error :: string

record 'd summary =
  totalDevices :: nat
  successfulFetches :: nat
  failedFetches :: nat
  timestamp :: int
  data :: "'d jsvalue list"
  errors :: "failure list"

text \<open>
  The mutable state outside the rate limiter: the clock read by \<^verbatim>\<open>Date.now()\<close>, the
  number of HTTP requests and of timers started so far, the aggregator's fields
  \<^verbatim>\<open>this.errors\<close> and \<^verbatim>\<open>this.results\<close>, and the content of the output file.
\<close>

record 'd world =
  now :: int
  calls :: nat
  timers :: nat
  this_errors :: "failure list"
  this_results :: "'d jsvalue list"
  output_file :: "'d summary option"

text \<open>
  What the program cannot decide is an oracle: the outcome of the k-th HTTP request
  (the value of \<^verbatim>\<open>response.data.data\<close>, or one of the three kinds of error that
  \<^verbatim>\<open>fetchDeviceData\<close> tells apart: an error status, no response, anything else thrown
  inside its \<^verbatim>\<open>try\<close>), how long that request takes, by how much the k-th timer fires
  late, and whether the two file-system operations of \<^verbatim>\<open>saveResults\<close> succeed.
\<close>

datatype axios_error =
    ResponseError nat "string option"
  | RequestError
  | SetupError string

record 'd env =
  post :: "nat \<Rightarrow> string list \<Rightarrow> axios_error + 'd jsvalue"
  latency :: "nat \<Rightarrow> nat"
  lateness :: "nat \<Rightarrow> nat"
  mkdir_ok :: bool
  writeFile_ok :: bool

text \<open>\<^verbatim>\<open>new Promise(resolve => setTimeout(resolve, ms))\<close>, awaited: the clock has advanced
  by at least \<open>ms\<close> when the caller goes on.\<close>

definition sleep :: "'d env \<Rightarrow> int \<Rightarrow> 'd world \<Rightarrow> 'd world" where
  "sleep env ms w =
     w\<lparr> now := now w + max 0 ms + int (lateness env (timers w)), timers := Suc (timers w) \<rparr>"

text \<open>A settled promise: fulfilled with a value or rejected with an error message.  An
  asynchronous function without arguments is a task.\<close>

datatype 'r outcome = Resolved 'r | Rejected string

type_synonym ('d, 'r) task = "'d world \<Rightarrow> 'r outcome \<times> 'd world"

subsection \<open>ApiClient (services/apiClient.js)\<close>

text \<open>The \<^verbatim>\<open>catch\<close> block of \<^verbatim>\<open>fetchDeviceData\<close>: the message of the error it throws.\<close>

fun errorMessage :: "axios_error \<Rightarrow> string" where
  "errorMessage (ResponseError status err) =
     ''API Error ['' @ toString status @ '']: '' @
       (case err of None \<Rightarrow> ''Unknown error''
        | Some m \<Rightarrow> if m = [] then ''Unknown error'' else m)"
| "errorMessage RequestError = ''No response from server. Is the mock API running?''"
| "errorMessage (SetupError m) = ''Request failed: '' @ m"

definition fetchDeviceData ::
  "'d env \<Rightarrow> string list \<Rightarrow> 'd world \<Rightarrow> (string + 'd jsvalue) \<times> 'd world" where
  "fetchDeviceData env sn_list w =
     (let k = calls w;
          w' = w\<lparr> now := now w + int (latency env k), calls := Suc k \<rparr>
      in case post env k sn_list of
           Inr response_data \<Rightarrow> (Inr response_data, w')
         | Inl e \<Rightarrow> (Inl (errorMessage e), w'))"

definition testConnection :: "'d env \<Rightarrow> 'd world \<Rightarrow> bool \<times> 'd world" where
  "testConnection env w =
     (case fetchDeviceData env [''SN-000''] w of
        (Inr _, w') \<Rightarrow> (True, w')
      | (Inl _, w') \<Rightarrow> (False, w'))"

subsection \<open>RateLimiter (services/rateLimiter.js)\<close>

text \<open>
  A queue entry is \<^verbatim>\<open>{ task, resolve, reject }\<close>; the pair of callbacks is the promise
  that \<^verbatim>\<open>schedule\<close> returned, named here by its number in submission order.

  \<^verbatim>\<open>_processQueue\<close> is asynchronous: a call of it runs up to an \<^verbatim>\<open>await\<close> and goes on
  later.  Every call that got past the guard and waits at an \<^verbatim>\<open>await\<close> is an
  activation: it sleeps before admitting an entry, or it waits for the task it started.
\<close>

record ('d, 'r) entry =
  task :: "('d, 'r) task"
  handle :: nat

datatype ('d, 'r) activation =
    Sleeping "('d, 'r) entry" int
  | Running "('d, 'r) entry"

text \<open>
  The first four fields are those of the class.  The others make up the rest of the
  machine: the suspended activations, the world, and three logs that are only written:
  the tasks submitted, the admissions (promise, time) and the settlements (promise,
  outcome), each in the order in which they happened.
\<close>

record ('d, 'r) limiter =
  intervalMs :: int
  queue :: "('d, 'r) entry list"
  isProcessing :: bool
  lastRequestTime :: int
  loops :: "('d, 'r) activation list"
  world :: "'d world"
  submitted :: "('d, 'r) task list"
  admitted :: "(nat \<times> int) list"
  settled :: "(nat \<times> 'r outcome) list"

definition RateLimiter :: "int \<Rightarrow> 'd world \<Rightarrow> ('d, 'r) limiter" where
  "RateLimiter interval w =
     \<lparr> intervalMs = interval, queue = [], isProcessing = False, lastRequestTime = 0,
       loops = [], world = w, submitted = [], admitted = [], settled = [] \<rparr>"

definition calculateDelay :: "('d, 'r) limiter \<Rightarrow> int" where
  "calculateDelay s =
     (let timeSinceLastRequest = now (world s) - lastRequestTime s
      in if timeSinceLastRequest \<ge> intervalMs s then 0
         else intervalMs s - timeSinceLastRequest)"

text \<open>\<^verbatim>\<open>this.lastRequestTime = Date.now(); ... await task()\<close>: the entry is admitted and
  the activation waits for its task.\<close>

definition admit ::
  "('d, 'r) entry \<Rightarrow> ('d, 'r) limiter \<Rightarrow> ('d, 'r) limiter \<times> ('d, 'r) activation" where
  "admit e s =
     (s\<lparr> lastRequestTime := now (world s),
         admitted := admitted s @ [(handle e, now (world s))] \<rparr>, Running e)"

text \<open>
  The head of the \<^verbatim>\<open>while\<close> loop up to its next \<^verbatim>\<open>await\<close>: with an empty queue the
  loop ends and clears the flag; otherwise the first entry is shifted out, and the
  activation sleeps for the delay or admits the entry at once.
\<close>

definition iterate ::
  "('d, 'r) limiter \<Rightarrow> ('d, 'r) limiter \<times> ('d, 'r) activation option" where
  "iterate s =
     (case queue s of
        [] \<Rightarrow> (s\<lparr> isProcessing := False \<rparr>, None)
      | e # rest \<Rightarrow>
          (let s1 = s\<lparr> queue := rest \<rparr>;
               delay = calculateDelay s1
           in if delay > 0 then (s1, Some (Sleeping e delay))
              else (case admit e s1 of (s2, a) \<Rightarrow> (s2, Some a))))"

definition processQueue :: "('d, 'r) limiter \<Rightarrow> ('d, 'r) limiter" where
  "processQueue s =
     (if isProcessing s \<or> queue s = [] then s
      else (case iterate (s\<lparr> isProcessing := True \<rparr>) of
              (s', None) \<Rightarrow> s'
            | (s', Some a) \<Rightarrow> s'\<lparr> loops := loops s' @ [a] \<rparr>))"

definition schedule :: "('d, 'r) task \<Rightarrow> ('d, 'r) limiter \<Rightarrow> ('d, 'r) limiter" where
  "schedule t s =
     processQueue
       (s\<lparr> queue := queue s @ [\<lparr> task = t, handle = length (submitted s) \<rparr>],
           submitted := submitted s @ [t] \<rparr>)"

text \<open>The k-th activation comes back from \<^verbatim>\<open>await this._sleep(delay)\<close>: the timer has
  fired, so the clock stands at least \<open>delay\<close> later, and the entry is admitted.\<close>

definition wake :: "'d env \<Rightarrow> nat \<Rightarrow> ('d, 'r) limiter \<Rightarrow> ('d, 'r) limiter" where
  "wake env k s =
     (if k < length (loops s) then
        (case loops s ! k of
           Sleeping e delay \<Rightarrow>
             (case admit e (s\<lparr> world := sleep env delay (world s) \<rparr>) of
                (s', a) \<Rightarrow> s'\<lparr> loops := (loops s')[k := a] \<rparr>)
         | Running e \<Rightarrow> s)
      else s)"

text \<open>
  The task of the k-th activation settles: \<^verbatim>\<open>resolve(result)\<close> or, in the
  \<^verbatim>\<open>catch\<close>, \<^verbatim>\<open>reject(error)\<close>; then the loop goes round.  A task runs between its
  admission and its settlement and never reads the limiter; what it does to the world is
  applied as a whole when it settles.
\<close>

definition complete :: "nat \<Rightarrow> ('d, 'r) limiter \<Rightarrow> ('d, 'r) limiter" where
  "complete k s =
     (if k < length (loops s) then
        (case loops s ! k of
           Sleeping e delay \<Rightarrow> s
         | Running e \<Rightarrow>
             (case task e (world s) of
                (out, w') \<Rightarrow>
                  (let s1 = (case out of
                               Resolved result \<Rightarrow>
                                 s\<lparr> world := w', settled := settled s @ [(handle e, Resolved result)] \<rparr>
                             | Rejected err \<Rightarrow>
                                 s\<lparr> world := w', settled := settled s @ [(handle e, Rejected err)] \<rparr>)
                   in case iterate s1 of
                        (s2, None) \<Rightarrow> s2\<lparr> loops := take k (loops s2) @ drop (Suc k) (loops s2) \<rparr>
                      | (s2, Some a) \<Rightarrow> s2\<lparr> loops := (loops s2)[k := a] \<rparr>)))
      else s)"

text \<open>
  What can happen to a limiter: somebody calls \<^verbatim>\<open>schedule\<close>, time passes, a sleeping
  activation wakes up, a running task settles.  An execution is a list of such events.
  The clock moves when time passes, in a sleep, in a request and in a task; code that
  runs without an \<^verbatim>\<open>await\<close> takes no time.
\<close>

datatype ('d, 'r) event =
    Schedule "('d, 'r) task"
  | Tick nat
  | Wake nat
  | Complete nat

fun step :: "'d env \<Rightarrow> ('d, 'r) event \<Rightarrow> ('d, 'r) limiter \<Rightarrow> ('d, 'r) limiter" where
  "step env (Schedule t) s = schedule t s"
| "step env (Tick d) s = s\<lparr> world := (world s)\<lparr> now := now (world s) + int d \<rparr> \<rparr>"
| "step env (Wake k) s = wake env k s"
| "step env (Complete k) s = complete k s"

definition exec :: "'d env \<Rightarrow> ('d, 'r) event list \<Rightarrow> ('d, 'r) limiter \<Rightarrow> ('d, 'r) limiter" where
  "exec env evs s = foldl (\<lambda>s ev. step env ev s) s evs"

text \<open>
  \<^verbatim>\<open>await p\<close> for the promise numbered \<open>h\<close>, with nobody else calling the limiter
  meanwhile: the event loop lets the pending activation go on, timer after task, until
  the promise is settled.  With no activation left an unsettled promise never settles
  (\<open>None\<close>).
\<close>

fun weight :: "('d, 'r) activation \<Rightarrow> nat" where
  "weight (Sleeping e delay) = 2"
| "weight (Running e) = 1"

function awaitPromise ::
  "'d env \<Rightarrow> nat \<Rightarrow> ('d, 'r) limiter \<Rightarrow> ('r outcome \<times> ('d, 'r) limiter) option" where
  "awaitPromise env h s =
     (case map_of (settled s) h of
        Some out \<Rightarrow> Some (out, s)
      | None \<Rightarrow>
          (case loops s of
             [] \<Rightarrow> None
           | Sleeping e delay # _ \<Rightarrow> awaitPromise env h (wake env 0 s)
           | Running e # _ \<Rightarrow> awaitPromise env h (complete 0 s)))"
  by pat_completeness auto
termination
  by (relation "measure (\<lambda>(env, h, s). 2 * length (queue s) + sum_list (map weight (loops s)))")
     (auto simp: wake_def complete_def iterate_def admit_def Let_def
           split: list.splits prod.splits outcome.splits if_splits)

declare awaitPromise.simps [simp del]

definition awaitSchedule ::
  "'d env \<Rightarrow> ('d, 'r) task \<Rightarrow> ('d, 'r) limiter \<Rightarrow> ('r outcome \<times> ('d, 'r) limiter) option" where
  "awaitSchedule env t s = awaitPromise env (length (submitted s)) (schedule t s)"

text \<open>
  \<^verbatim>\<open>executeAll\<close>: \<^verbatim>\<open>for (i ...) { const result = await this.schedule(tasks[i]); results.push(result) }\<close>.
  A rejected promise makes the \<^verbatim>\<open>await\<close> throw, which rejects \<^verbatim>\<open>executeAll\<close>.  The
  progress callback only prints.
\<close>

fun executeAll_loop ::
  "'d env \<Rightarrow> ('d, 'r) task list \<Rightarrow> 'r list \<Rightarrow> ('d, 'r) limiter
     \<Rightarrow> ('r list outcome \<times> ('d, 'r) limiter) option" where
  "executeAll_loop env [] results s = Some (Resolved results, s)"
| "executeAll_loop env (t # ts) results s =
     (case awaitSchedule env t s of
        None \<Rightarrow> None
      | Some (Rejected err, s') \<Rightarrow> Some (Rejected err, s')
      | Some (Resolved result, s') \<Rightarrow> executeAll_loop env ts (results @ [result]) s')"

definition executeAll ::
  "'d env \<Rightarrow> ('d, 'r) task list \<Rightarrow> ('d, 'r) limiter
     \<Rightarrow> ('r list outcome \<times> ('d, 'r) limiter) option" where
  "executeAll env tasks s = executeAll_loop env tasks [] s"

subsection \<open>DataAggregator (core/aggregator.js)\<close>

function fetchBatchWithRetry ::
  "'d env \<Rightarrow> config \<Rightarrow> string list \<Rightarrow> nat \<Rightarrow> nat \<Rightarrow> ('d, 'd jsvalue) task" where
  "fetchBatchWithRetry env cfg batch_sns batchIndex retryCount w =
     (case fetchDeviceData env batch_sns w of
        (Inr response_data, w1) \<Rightarrow> (Resolved response_data, w1)
      | (Inl message, w1) \<Rightarrow>
          if retryCount < MAX_RETRIES cfg
          then fetchBatchWithRetry env cfg batch_sns batchIndex (retryCount + 1)
                 (sleep env (RETRY_DELAY_MS cfg) w1)
          else (Resolved (Array []),
                w1\<lparr> this_errors := this_errors w1 @
                      [\<lparr> batch = batchIndex + 1, serialNumbers = batch_sns, error = message \<rparr>] \<rparr>))"
  by pat_completeness auto
termination
  by (relation "measure (\<lambda>(env, cfg, batch_sns, batchIndex, retryCount, w). MAX_RETRIES cfg - retryCount)")
     auto

declare fetchBatchWithRetry.simps [simp del]

definition fetchAllData ::
  "'d env \<Rightarrow> config \<Rightarrow> string list list \<Rightarrow> ('d, 'd jsvalue) limiter
     \<Rightarrow> ('d jsvalue list outcome \<times> ('d, 'd jsvalue) limiter) option" where
  "fetchAllData env cfg batches s =
     (let tasks = map (\<lambda>(index, batch_sns). fetchBatchWithRetry env cfg batch_sns index 0)
                      (enumerate 0 batches)
      in case executeAll env tasks s of
           None \<Rightarrow> None
         | Some (Rejected err, s') \<Rightarrow> Some (Rejected err, s')
         | Some (Resolved batchResults, s') \<Rightarrow> Some (Resolved (flat batchResults), s'))"

text \<open>\<^verbatim>\<open>saveResults\<close> catches whatever the file system throws and only logs it.\<close>

definition saveResults ::
  "'d env \<Rightarrow> config \<Rightarrow> 'd jsvalue list \<Rightarrow> 'd world \<Rightarrow> 'd world" where
  "saveResults env cfg device_data w =
     (if \<not> mkdir_ok env then w
      else (let summary = \<lparr> totalDevices = TOTAL_DEVICES cfg,
                            successfulFetches = length device_data,
                            failedFetches = length (this_errors w),
                            timestamp = now w,
                            data = device_data,
                            errors = this_errors w \<rparr>
            in if \<not> writeFile_ok env then w
               else w\<lparr> output_file := Some summary \<rparr>))"

text \<open>
  \<^verbatim>\<open>displaySummary\<close> prints; but when there is any data it reads \<^verbatim>\<open>d.status\<close> of every
  element \<open>d\<close> (and later \<^verbatim>\<open>d.power\<close>), which throws a TypeError at the first element
  that is \<^verbatim>\<open>null\<close> or \<^verbatim>\<open>undefined\<close>.  The result is the message of the error thrown,
  if any.
\<close>

fun typeError :: "'d jsvalue \<Rightarrow> string" where
  "typeError Undefined = ''Cannot read properties of undefined (reading 'status')''"
| "typeError v = ''Cannot read properties of null (reading 'status')''"

definition displaySummary :: "'d jsvalue list \<Rightarrow> string option" where
  "displaySummary device_data =
     (if length device_data > 0
      then (case find nullish device_data of
              Some d \<Rightarrow> Some (typeError d)
            | None \<Rightarrow> None)
      else None)"

text \<open>
  \<^verbatim>\<open>run\<close> ends in one of two ways: its \<^verbatim>\<open>catch\<close> logs "Fatal error" with the message of
  whatever was thrown and exits with status 1, or it gets to "Data aggregation completed
  successfully!".  The aggregator object is the limiter together with the world.
\<close>

datatype exit = Fatal string | Completed

definition new_world :: "int \<Rightarrow> 'd world" where
  "new_world t0 = \<lparr> now = t0, calls = 0, timers = 0, this_errors = [], this_results = [],
                    output_file = None \<rparr>"

definition DataAggregator :: "config \<Rightarrow> int \<Rightarrow> ('d, 'd jsvalue) limiter" where
  "DataAggregator cfg t0 = RateLimiter (REQUEST_INTERVAL_MS cfg) (new_world t0)"

definition run ::
  "'d env \<Rightarrow> config \<Rightarrow> ('d, 'd jsvalue) limiter \<Rightarrow> (exit \<times> ('d, 'd jsvalue) limiter) option" where
  "run env cfg s =
     (case testConnection env (world s) of
        (False, w1) \<Rightarrow>
          Some (Fatal ''Cannot connect to API. Please ensure the mock server is running.'',
                s\<lparr> world := w1 \<rparr>)
      | (True, w1) \<Rightarrow>
          (let sns = generateSerialNumbers (TOTAL_DEVICES cfg) (DEVICE_SN_PREFIX cfg)
           in case createBatches sns (BATCH_SIZE cfg) of
                None \<Rightarrow> None
              | Some batches \<Rightarrow>
                  (case fetchAllData env cfg batches (s\<lparr> world := w1 \<rparr>) of
                     None \<Rightarrow> None
                   | Some (Rejected err, s') \<Rightarrow> Some (Fatal err, s')
                   | Some (Resolved device_data, s') \<Rightarrow>
                       (let s'' = s'\<lparr> world := saveResults env cfg device_data
                                            ((world s')\<lparr> this_results := device_data \<rparr>) \<rparr>
                        in case displaySummary device_data of
                             Some message \<Rightarrow> Some (Fatal message, s'')
                           | None \<Rightarrow> Some (Completed, s'')))))"

subsection \<open>The drain loop as the design describes it\<close>

text \<open>
  The design gives the algorithm of the scheduler in words: on each drain iteration pop
  the head of the queue; compute the delay as the maximum of 0 and
  \<open>interval - (now - last admission time)\<close>; suspend for the delay; set the last admission
  time to now; execute the task; route its outcome to whoever waits for it; continue until
  the queue is empty.  \<open>drain_spec\<close> is that algorithm on a list of tasks, as a plain
  recursion over the list: it gives the outcomes in order, the world the last task
  leaves, and the last admission time.  It is what the limiter is compared with.
\<close>

fun drain_spec ::
  "'d env \<Rightarrow> int \<Rightarrow> int \<Rightarrow> ('d, 'r) task list \<Rightarrow> 'd world \<Rightarrow> 'r outcome list \<times> 'd world \<times> int" where
  "drain_spec env I last_admission [] w = ([], w, last_admission)"
| "drain_spec env I last_admission (t # ts) w =
     (let delay = max 0 (I - (now w - last_admission));
          w1 = (if delay > 0 then sleep env delay w else w)
      in case t w1 of
           (out, w2) \<Rightarrow>
             (case drain_spec env I (now w1) ts w2 of
                (outs, w3, l3) \<Rightarrow> (out # outs, w3, l3)))"

text \<open>The rest of an iteration once its task has been admitted, and what follows it.\<close>

definition drain_admitted ::
  "'d env \<Rightarrow> int \<Rightarrow> int \<Rightarrow> ('d, 'r) task \<Rightarrow> ('d, 'r) task list \<Rightarrow> 'd world
     \<Rightarrow> 'r outcome list \<times> 'd world \<times> int" where
  "drain_admitted env I admission t ts w =
     (case t w of
        (out, w2) \<Rightarrow>
          (case drain_spec env I admission ts w2 of
             (outs, w3, l3) \<Rightarrow> (out # outs, w3, l3)))"

subsection \<open>Invariants of the limiter\<close>

text \<open>The entry an activation holds, and whether its task has been started.\<close>

fun entry_of :: "('d, 'r) activation \<Rightarrow> ('d, 'r) entry" where
  "entry_of (Sleeping e delay) = e"
| "entry_of (Running e) = e"

fun is_running :: "('d, 'r) activation \<Rightarrow> bool" where
  "is_running (Sleeping e delay) = False"
| "is_running (Running e) = True"

text \<open>Times in a list are spaced when each is at least \<open>I\<close> after the one before it.\<close>

fun spaced :: "int \<Rightarrow> int list \<Rightarrow> bool" where
  "spaced I [] = True"
| "spaced I [t] = True"
| "spaced I (t # u # ts) = (t + I \<le> u \<and> spaced I (u # ts))"

text \<open>
  Control: at most one activation exists, the flag \<^verbatim>\<open>isProcessing\<close> says whether one
  does, and entries only wait in the queue while one does.
\<close>

definition control_inv :: "('d, 'r) limiter \<Rightarrow> bool" where
  "control_inv s \<longleftrightarrow>
     length (loops s) \<le> 1 \<and> (isProcessing s \<longleftrightarrow> loops s \<noteq> []) \<and> (loops s = [] \<longrightarrow> queue s = [])"

text \<open>
  Order: the promises settled, then the one held by the activation, then those in the
  queue are the promises \<open>0, 1, 2, \<dots>\<close> in submission order; the admissions are the
  settled promises followed by the running one.
\<close>

definition order_inv :: "('d, 'r) limiter \<Rightarrow> bool" where
  "order_inv s \<longleftrightarrow>
     map fst (settled s) @ map (\<lambda>a. handle (entry_of a)) (loops s) @ map handle (queue s)
       = [0..<length (submitted s)]
     \<and> map fst (admitted s)
       = map fst (settled s) @ map (\<lambda>a. handle (entry_of a)) (filter is_running (loops s))"

text \<open>Origin: every entry carries the task submitted under its number, and every
  settlement is an outcome of the task submitted under its number.\<close>

definition origin_inv :: "('d, 'r) limiter \<Rightarrow> bool" where
  "origin_inv s \<longleftrightarrow>
     (\<forall>a. a \<in> set (loops s) \<longrightarrow> task (entry_of a) = submitted s ! handle (entry_of a))
     \<and> (\<forall>e. e \<in> set (queue s) \<longrightarrow> task e = submitted s ! handle e)
     \<and> (\<forall>h out. (h, out) \<in> set (settled s) \<longrightarrow> (\<exists>w. out = fst ((submitted s ! h) w)))"

text \<open>
  Timing: the admission times are spaced by the interval, \<^verbatim>\<open>lastRequestTime\<close> is the
  time of the last admission, and a sleeping activation wakes up no earlier than one
  interval after it.
\<close>

definition timing_inv :: "('d, 'r) limiter \<Rightarrow> bool" where
  "timing_inv s \<longleftrightarrow>
     spaced (intervalMs s) (map snd (admitted s))
     \<and> (admitted s \<noteq> [] \<longrightarrow> lastRequestTime s = snd (last (admitted s)))
     \<and> (\<forall>e d. Sleeping e d \<in> set (loops s) \<longrightarrow> lastRequestTime s + intervalMs s \<le> now (world s) + d)"

subsection \<open>Examples\<close>

text \<open>A transport that fails twice and answers from the third request on with the serial
  numbers it was asked for, and a transport that never answers.\<close>

definition flaky_env :: "string env" where
  "flaky_env = \<lparr> post = (\<lambda>k sns. if k < 2 then Inl RequestError
                                    else Inr (Array (map Device sns))),
                  latency = (\<lambda>k. 20), lateness = (\<lambda>k. 1),
                  mkdir_ok = True, writeFile_ok = True \<rparr>"

definition dead_env :: "string env" where
  "dead_env = \<lparr> post = (\<lambda>k sns. Inl (ResponseError 500 None)),
                 latency = (\<lambda>k. 20), lateness = (\<lambda>k. 1),
                 mkdir_ok = True, writeFile_ok = True \<rparr>"

text \<open>The report a finished run has written, if any.\<close>

definition report_of :: "(exit \<times> ('d, 'd jsvalue) limiter) option \<Rightarrow> 'd summary option" where
  "report_of r = (case r of Some (ex, s) \<Rightarrow> output_file (world s) | None \<Rightarrow> None)"

text \<open>
  A population of 23 devices in batches of 10 and its three batches; a transport that
  answers every request with one record per serial number, except that it never answers
  a request for the second batch; the same transport on a machine where the output
  directory cannot be created; a transport that also fails the first request for the
  first batch; and a server whose answers have status 200 but no \<^verbatim>\<open>data\<close> in them.
\<close>

definition cfg23 :: config where
  "cfg23 = constants\<lparr> TOTAL_DEVICES := 23 \<rparr>"

definition second_batch :: "string list" where
  "second_batch = [''SN-010'', ''SN-011'', ''SN-012'', ''SN-013'', ''SN-014'',
                   ''SN-015'', ''SN-016'', ''SN-017'', ''SN-018'', ''SN-019'']"

definition first_batch :: "string list" where
  "first_batch = [''SN-000'', ''SN-001'', ''SN-002'', ''SN-003'', ''SN-004'',
                  ''SN-005'', ''SN-006'', ''SN-007'', ''SN-008'', ''SN-009'']"

definition third_batch :: "string list" where
  "third_batch = [''SN-020'', ''SN-021'', ''SN-022'']"

definition batch2_fails_env :: "string env" where
  "batch2_fails_env =
     \<lparr> post = (\<lambda>k sns. if sns = second_batch then Inl RequestError
                         else Inr (Array (map Device sns))),
       latency = (\<lambda>k. 20), lateness = (\<lambda>k. 1), mkdir_ok = True, writeFile_ok = True \<rparr>"

definition no_disk_env :: "string env" where
  "no_disk_env = batch2_fails_env\<lparr> mkdir_ok := False \<rparr>"

definition transient_env :: "string env" where
  "transient_env =
     \<lparr> post = (\<lambda>k sns. if sns = second_batch \<or> (sns = first_batch \<and> k = 1)
                         then Inl RequestError
                         else Inr (Array (map Device sns))),
       latency = (\<lambda>k. 20), lateness = (\<lambda>k. 1), mkdir_ok = True, writeFile_ok = True \<rparr>"


text \<open>Three tasks, the second of which rejects, and an execution that schedules all
  three and lets the loop run them.\<close>

definition example_tasks :: "(string, nat) task list" where
  "example_tasks =
     [\<lambda>w. (Resolved 1, w), \<lambda>w. (Rejected ''boom'', w), \<lambda>w. (Resolved 3, w)]"

text \<open>Three tasks that count the requests made so far: the first resolves with the count
  and raises it, the second raises it and rejects, the third resolves with the count.\<close>

definition counting_tasks :: "(string, nat) task list" where
  "counting_tasks =
     [\<lambda>w. (Resolved (calls w), w\<lparr> calls := Suc (calls w) \<rparr>),
      \<lambda>w. (Rejected ''boom'', w\<lparr> calls := Suc (calls w) \<rparr>),
      \<lambda>w. (Resolved (calls w), w)]"

definition example_events :: "(string, nat) event list" where
  "example_events =
     map Schedule example_tasks @ [Complete 0, Tick 3, Wake 0, Complete 0, Wake 0, Complete 0]"

section \<open>The partitioner\<close>

lemma slice_chunk:
  "0 \<le> i \<Longrightarrow> 1 \<le> K \<Longrightarrow> slice xs i (i + K) = take (nat K) (drop (nat i) xs)"
  unfolding slice_def Let_def
  apply (cases "i + K \<le> int (length xs)")
   apply (simp add: min_def nat_diff_distrib nat_add_distrib)
  apply (simp add: min_def)
  done

text \<open>With a positive batch size the loop started at a non-negative index returns: it
  appends the chunks of the rest of the array.\<close>

lemma createBatches_loop_chunks:
  assumes K: "1 \<le> K"
  shows "0 \<le> i \<Longrightarrow> \<exists>cs. createBatches_loop xs K i bs = Some (bs @ cs)
            \<and> concat cs = drop (nat i) xs
            \<and> (\<forall>c\<in>set (butlast cs). length c = nat K)
            \<and> (cs \<noteq> [] \<longrightarrow> 1 \<le> length (last cs) \<and> length (last cs) \<le> nat K)
            \<and> (cs = [] \<longleftrightarrow> int (length xs) \<le> i)"
proof (induction "nat (int (length xs) - i)" arbitrary: i bs rule: less_induct)
  case less
  show ?case
  proof (cases "i < int (length xs)")
    case False
    then have "createBatches_loop xs K i bs = Some (bs @ [])"
      by (subst createBatches_loop.simps) simp
    moreover from False have "drop (nat i) xs = []" by simp
    ultimately show ?thesis using False by force
  next
    case True
    define c where "c = take (nat K) (drop (nat i) xs)"
    have sl: "slice xs i (i + K) = c"
      using less.prems K by (simp add: slice_chunk c_def)
    have lenc: "length c = min (nat K) (length xs - nat i)"
      by (simp add: c_def)
    have cpos: "1 \<le> length c" "length c \<le> nat K"
      using True less.prems K by (auto simp: lenc)
    have dec: "nat (int (length xs) - (i + K)) < nat (int (length xs) - i)"
      using True K by linarith
    have nonneg: "0 \<le> i + K" using less.prems K by simp
    from less.hyps[OF dec nonneg, of "bs @ [c]"]
    obtain cs where cs:
      "createBatches_loop xs K (i + K) (bs @ [c]) = Some ((bs @ [c]) @ cs)"
      "concat cs = drop (nat (i + K)) xs"
      "\<forall>d\<in>set (butlast cs). length d = nat K"
      "cs \<noteq> [] \<longrightarrow> 1 \<le> length (last cs) \<and> length (last cs) \<le> nat K"
      "cs = [] \<longleftrightarrow> int (length xs) \<le> i + K"
      by blast
    have run: "createBatches_loop xs K i bs = Some (bs @ (c # cs))"
      using True cs(1) sl by (subst createBatches_loop.simps) simp
    have "drop (nat (i + K)) xs = drop (nat K) (drop (nat i) xs)"
      using less.prems K by (simp add: nat_add_distrib add.commute)
    then have "concat cs = drop (nat K) (drop (nat i) xs)"
      using cs(2) by simp
    then have cat: "concat (c # cs) = drop (nat i) xs"
      unfolding c_def by (simp only: concat.simps append_take_drop_id)
    have full: "cs \<noteq> [] \<Longrightarrow> length c = nat K"
      using cs(5) True less.prems K by (auto simp: lenc)
    have bl: "\<forall>d\<in>set (butlast (c # cs)). length d = nat K"
      using cs(3) full by auto
    have la: "1 \<le> length (last (c # cs)) \<and> length (last (c # cs)) \<le> nat K"
      using cs(4) cpos by auto
    show ?thesis
      using run cat bl la True by (intro exI[of _ "c # cs"]) simp
  qed
qed

text \<open>With a batch size that is not positive the index never gets past a non-empty
  array: no run of the loop returns.\<close>

lemma createBatches_loop_stuck:
  assumes "createBatches_loop xs K i bs = Some r"
  shows "\<not> (K \<le> 0 \<and> i \<le> 0 \<and> xs \<noteq> [])"
  using assms
proof (induction arbitrary: r rule: createBatches_loop.raw_induct[rotated 1, consumes 1])
  case (1 f xs K i bs r)
  show ?case
  proof
    assume a: "K \<le> 0 \<and> i \<le> 0 \<and> xs \<noteq> []"
    then have "i < int (length xs)" by (cases xs) auto
    with 1(2) have "f xs K (i + K) (bs @ [slice xs i (i + K)]) = Some r" by simp
    from 1(1)[OF this] a show False by simp
  qed
qed

text \<open>
  C9.  For every sequence \<open>S\<close> and every chunk size \<open>K \<ge> 1\<close>, \<open>createBatches\<close> returns;
  the chunks concatenated in order give \<open>S\<close> back; every chunk but the last has exactly
  \<open>K\<close> elements; the last chunk has between 1 and \<open>K\<close> elements; and there is no chunk
  at all exactly when \<open>S\<close> is empty.
\<close>

theorem createBatches_partition:
  assumes "1 \<le> K"
  shows "\<exists>bs. createBatches S K = Some bs
           \<and> concat bs = S
           \<and> (\<forall>j. Suc j < length bs \<longrightarrow> length (bs ! j) = nat K)
           \<and> (bs \<noteq> [] \<longrightarrow> 1 \<le> length (last bs) \<and> length (last bs) \<le> nat K)
           \<and> (bs = [] \<longleftrightarrow> S = [])"
proof -
  from createBatches_loop_chunks[OF assms, of 0 S "[]"]
  obtain cs where cs:
    "createBatches_loop S K 0 [] = Some cs" "concat cs = S"
    "\<forall>c\<in>set (butlast cs). length c = nat K"
    "cs \<noteq> [] \<longrightarrow> 1 \<le> length (last cs) \<and> length (last cs) \<le> nat K"
    "cs = [] \<longleftrightarrow> S = []"
    by auto
  have "length (cs ! j) = nat K" if "Suc j < length cs" for j
  proof -
    from that have "j < length (butlast cs)" by simp
    then have "butlast cs ! j \<in> set (butlast cs)" by (rule nth_mem)
    moreover have "butlast cs ! j = cs ! j" using \<open>j < length (butlast cs)\<close> by (rule nth_butlast)
    ultimately show ?thesis using cs(3) by auto
  qed
  with cs show ?thesis unfolding createBatches_def by blast
qed

theorem createBatches_partition_witness:
  "(1::int) \<le> 3 \<and>
   (\<exists>bs. createBatches [1, 2, 3, 4, 5, 6, 7 :: nat] 3 = Some bs
      \<and> concat bs = [1, 2, 3, 4, 5, 6, 7]
      \<and> (\<forall>j. Suc j < length bs \<longrightarrow> length (bs ! j) = 3)
      \<and> (bs \<noteq> [] \<longrightarrow> 1 \<le> length (last bs) \<and> length (last bs) \<le> 3)
      \<and> bs \<noteq> [])"
  using createBatches_partition[of 3 "[1, 2, 3, 4, 5, 6, 7 :: nat]"] by simp

text \<open>
  C3 (as the specification states it): for every \<open>K \<le> 0\<close> the partitioner fails with
  an invalid-argument condition.  The source has no check of the batch size.  On the
  empty array and batch size 0 it returns the empty list of batches.
\<close>

theorem createBatches_unchecked_counterexample:
  "createBatches ([] :: nat list) 0 = Some []"
  unfolding createBatches_def by (subst createBatches_loop.simps) simp

text \<open>
  C3 (amended).  The batch size is not validated: for \<open>K \<le> 0\<close>, \<open>createBatches\<close>
  returns the empty list of batches when the array is empty, and never returns when the
  array is not empty (the loop index never passes the end of the array).
\<close>

theorem createBatches_nonpositive:
  assumes "K \<le> 0"
  shows "createBatches S K = (if S = [] then Some [] else None)"
proof (cases "S = []")
  case True
  then show ?thesis
    unfolding createBatches_def by (subst createBatches_loop.simps) simp
next
  case False
  have "createBatches_loop S K 0 [] = None"
  proof (cases "createBatches_loop S K 0 []")
    case (Some r)
    from createBatches_loop_stuck[OF this] assms False show ?thesis by simp
  qed simp
  with False show ?thesis by (simp add: createBatches_def)
qed

theorem createBatches_nonpositive_witness:
  "(-2::int) \<le> 0 \<and> createBatches [''SN-000''] (-2) = None \<and> createBatches ([] :: string list) (-2) = Some []"
  using createBatches_nonpositive[of "-2" "[''SN-000'']"]
        createBatches_nonpositive[of "-2" "[] :: string list"] by simp

section \<open>The retrying fetch\<close>

lemma fetchDeviceData_Inr:
  "post env (calls w) b = Inr ds \<Longrightarrow>
   fetchDeviceData env b w =
     (Inr ds, w\<lparr> now := now w + int (latency env (calls w)), calls := Suc (calls w) \<rparr>)"
  by (simp add: fetchDeviceData_def Let_def)

lemma fetchDeviceData_Inl:
  "post env (calls w) b = Inl e \<Longrightarrow>
   fetchDeviceData env b w =
     (Inl (errorMessage e), w\<lparr> now := now w + int (latency env (calls w)), calls := Suc (calls w) \<rparr>)"
  by (simp add: fetchDeviceData_def Let_def)

text \<open>After \<open>R\<close> failed requests and one that succeeds, with enough retries left.\<close>

lemma retry_succeeds:
  "r + R \<le> MAX_RETRIES cfg \<Longrightarrow> (\<forall>k<R. isl (post env (calls w + k) b)) \<Longrightarrow>
   post env (calls w + R) b = Inr ds \<Longrightarrow>
   \<exists>w'. fetchBatchWithRetry env cfg b idx r w = (Resolved ds, w')
      \<and> calls w' = calls w + R + 1 \<and> timers w' = timers w + R
      \<and> this_errors w' = this_errors w"
proof (induction R arbitrary: r w)
  case 0
  then show ?case
    by (subst fetchBatchWithRetry.simps) (simp add: fetchDeviceData_Inr)
next
  case (Suc R)
  from Suc.prems(2) have "isl (post env (calls w) b)" by (metis add.right_neutral zero_less_Suc)
  then obtain e where e: "post env (calls w) b = Inl e" by (auto simp: isl_def)
  define w2 where "w2 = sleep env (RETRY_DELAY_MS cfg)
     (w\<lparr> now := now w + int (latency env (calls w)), calls := Suc (calls w) \<rparr>)"
  have c2: "calls w2 = Suc (calls w)" "timers w2 = Suc (timers w)" "this_errors w2 = this_errors w"
    by (simp_all add: w2_def sleep_def)
  have a: "Suc r + R \<le> MAX_RETRIES cfg" using Suc.prems(1) by simp
  have b: "\<forall>k<R. isl (post env (calls w2 + k) b)"
    using Suc.prems(2) c2 by auto
  have c: "post env (calls w2 + R) b = Inr ds" using Suc.prems(3) c2 by simp
  from Suc.IH[OF a b c] obtain w' where w':
    "fetchBatchWithRetry env cfg b idx (Suc r) w2 = (Resolved ds, w')"
    "calls w' = calls w2 + R + 1" "timers w' = timers w2 + R" "this_errors w' = this_errors w2"
    by blast
  have "r < MAX_RETRIES cfg" using Suc.prems(1) by simp
  then have "fetchBatchWithRetry env cfg b idx r w = fetchBatchWithRetry env cfg b idx (Suc r) w2"
    by (subst fetchBatchWithRetry.simps) (simp add: fetchDeviceData_Inl[OF e] w2_def)
  with w' c2 show ?case by simp
qed

text \<open>When every request that is made fails: the retries run out, and the message of the
  last failure is recorded.\<close>

lemma retry_exhausted:
  "r \<le> MAX_RETRIES cfg \<Longrightarrow> (\<forall>k \<le> MAX_RETRIES cfg - r. isl (post env (calls w + k) b)) \<Longrightarrow>
   \<exists>w'. fetchBatchWithRetry env cfg b idx r w = (Resolved (Array []), w')
      \<and> calls w' = calls w + (MAX_RETRIES cfg - r) + 1
      \<and> timers w' = timers w + (MAX_RETRIES cfg - r)
      \<and> this_errors w' = this_errors w @
           [\<lparr> batch = idx + 1, serialNumbers = b,
              error = errorMessage (projl (post env (calls w + (MAX_RETRIES cfg - r)) b)) \<rparr>]"
proof (induction "MAX_RETRIES cfg - r" arbitrary: r w)
  case 0
  then have r: "\<not> r < MAX_RETRIES cfg" by simp
  from 0 have "isl (post env (calls w) b)" by simp
  then obtain e where e: "post env (calls w) b = Inl e" by (auto simp: isl_def)
  show ?case using r e 0
    by (subst fetchBatchWithRetry.simps) (simp add: fetchDeviceData_Inl[OF e])
next
  case (Suc n)
  then have r: "r < MAX_RETRIES cfg" by simp
  from Suc.prems(2) have "isl (post env (calls w) b)" by (metis add.right_neutral le0)
  then obtain e where e: "post env (calls w) b = Inl e" by (auto simp: isl_def)
  define w2 where "w2 = sleep env (RETRY_DELAY_MS cfg)
     (w\<lparr> now := now w + int (latency env (calls w)), calls := Suc (calls w) \<rparr>)"
  have c2: "calls w2 = Suc (calls w)" "timers w2 = Suc (timers w)" "this_errors w2 = this_errors w"
    by (simp_all add: w2_def sleep_def)
  have a: "n = MAX_RETRIES cfg - Suc r" using Suc.hyps(2) by simp
  have b: "Suc r \<le> MAX_RETRIES cfg" using r by simp
  have c: "\<forall>k \<le> MAX_RETRIES cfg - Suc r. isl (post env (calls w2 + k) b)"
  proof (intro allI impI)
    fix k assume "k \<le> MAX_RETRIES cfg - Suc r"
    then have "Suc k \<le> MAX_RETRIES cfg - r" using r by simp
    with Suc.prems(2) have "isl (post env (calls w + Suc k) b)" by blast
    then show "isl (post env (calls w2 + k) b)" by (simp add: c2)
  qed
  from Suc.hyps(1)[OF a b c] obtain w' where w':
    "fetchBatchWithRetry env cfg b idx (Suc r) w2 = (Resolved (Array []), w')"
    "calls w' = calls w2 + (MAX_RETRIES cfg - Suc r) + 1"
    "timers w' = timers w2 + (MAX_RETRIES cfg - Suc r)"
    "this_errors w' = this_errors w2 @
           [\<lparr> batch = idx + 1, serialNumbers = b,
              error = errorMessage (projl (post env (calls w2 + (MAX_RETRIES cfg - Suc r)) b)) \<rparr>]"
    by blast
  have "fetchBatchWithRetry env cfg b idx r w = fetchBatchWithRetry env cfg b idx (Suc r) w2"
    using r by (subst fetchBatchWithRetry.simps) (simp add: fetchDeviceData_Inl[OF e] w2_def)
  moreover have "calls w2 + (MAX_RETRIES cfg - Suc r) = calls w + (MAX_RETRIES cfg - r)"
    using r c2 by simp
  ultimately show ?case using w' c2 r by simp
qed

text \<open>Whatever the transport does, the task resolves; it only appends to the failures,
  and it touches neither the results nor the output file.\<close>

lemma retry_resolves:
  "\<exists>ds w'. fetchBatchWithRetry env cfg b idx r w = (Resolved ds, w')
      \<and> (\<exists>es. this_errors w' = this_errors w @ es)
      \<and> output_file w' = output_file w \<and> this_results w' = this_results w"
proof (induction env cfg b idx r w rule: fetchBatchWithRetry.induct)
  case (1 env cfg b idx r w)
  obtain res w1 where f: "fetchDeviceData env b w = (res, w1)" by (cases "fetchDeviceData env b w")
  then have w1: "this_errors w1 = this_errors w" "output_file w1 = output_file w"
     "this_results w1 = this_results w"
    by (auto simp: fetchDeviceData_def Let_def split: sum.splits)
  show ?case
  proof (cases res)
    case (Inr ds)
    then show ?thesis using f w1 by (subst fetchBatchWithRetry.simps) simp
  next
    case (Inl m)
    show ?thesis
    proof (cases "r < MAX_RETRIES cfg")
      case True
      from "1.IH"[OF f[symmetric] Inl True]
      obtain ds w' es where
        "fetchBatchWithRetry env cfg b idx (r + 1) (sleep env (RETRY_DELAY_MS cfg) w1) = (Resolved ds, w')"
        "this_errors w' = this_errors (sleep env (RETRY_DELAY_MS cfg) w1) @ es"
        "output_file w' = output_file (sleep env (RETRY_DELAY_MS cfg) w1)"
        "this_results w' = this_results (sleep env (RETRY_DELAY_MS cfg) w1)"
        by blast
      then show ?thesis using f Inl True w1
        by (subst fetchBatchWithRetry.simps) (simp add: sleep_def)
    next
      case False
      then show ?thesis using f Inl w1 by (subst fetchBatchWithRetry.simps) simp
    qed
  qed
qed

text \<open>
  C6.  If the fetch of a batch fails exactly \<open>R\<close> times, \<open>R\<close> not above the maximum
  number of retries, and then succeeds, the task resolves with the fetched records after
  \<open>R\<close> retries (\<open>R + 1\<close> requests, \<open>R\<close> retry delays) and records no failure.  If the
  fetch fails on every request, the task makes all \<open>MAX_RETRIES\<close> retries
  (\<open>MAX_RETRIES + 1\<close> requests), appends exactly one failure entry and resolves with the
  empty array: no error leaves the task.
\<close>

theorem fetchBatchWithRetry_terminal:
  "(R \<le> MAX_RETRIES cfg \<and> (\<forall>k<R. isl (post env (calls w + k) b)) \<and> post env (calls w + R) b = Inr ds
      \<longrightarrow> (\<exists>w'. fetchBatchWithRetry env cfg b idx 0 w = (Resolved ds, w')
             \<and> calls w' = calls w + R + 1 \<and> timers w' = timers w + R
             \<and> this_errors w' = this_errors w))
   \<and> ((\<forall>k \<le> MAX_RETRIES cfg. isl (post env (calls w + k) b))
      \<longrightarrow> (\<exists>w' f. fetchBatchWithRetry env cfg b idx 0 w = (Resolved (Array []), w')
             \<and> calls w' = calls w + MAX_RETRIES cfg + 1 \<and> timers w' = timers w + MAX_RETRIES cfg
             \<and> this_errors w' = this_errors w @ [f]))"
proof (intro conjI impI)
  assume "R \<le> MAX_RETRIES cfg \<and> (\<forall>k<R. isl (post env (calls w + k) b)) \<and> post env (calls w + R) b = Inr ds"
  then show "\<exists>w'. fetchBatchWithRetry env cfg b idx 0 w = (Resolved ds, w')
             \<and> calls w' = calls w + R + 1 \<and> timers w' = timers w + R
             \<and> this_errors w' = this_errors w"
    using retry_succeeds[of 0 R cfg env w b ds idx] by simp
next
  assume "\<forall>k \<le> MAX_RETRIES cfg. isl (post env (calls w + k) b)"
  then show "\<exists>w' f. fetchBatchWithRetry env cfg b idx 0 w = (Resolved (Array []), w')
             \<and> calls w' = calls w + MAX_RETRIES cfg + 1 \<and> timers w' = timers w + MAX_RETRIES cfg
             \<and> this_errors w' = this_errors w @ [f]"
    using retry_exhausted[of 0 cfg env w b idx] by auto
qed

theorem fetchBatchWithRetry_terminal_witness:
  "(\<exists>w'. fetchBatchWithRetry flaky_env constants [''SN-000''] 0 0 (new_world 0)
            = (Resolved (Array [Device ''SN-000'']), w')
        \<and> calls w' = 3 \<and> timers w' = 2 \<and> this_errors w' = [])
   \<and> (\<exists>w' f. fetchBatchWithRetry dead_env constants [''SN-000''] 0 0 (new_world 0)
            = (Resolved (Array []), w')
        \<and> calls w' = 4 \<and> timers w' = 3 \<and> this_errors w' = [f])"
proof -
  have h1: "2 \<le> MAX_RETRIES constants
      \<and> (\<forall>k<2. isl (post flaky_env (calls (new_world 0 :: string world) + k) [''SN-000'']))
      \<and> post flaky_env (calls (new_world 0 :: string world) + 2) [''SN-000'']
          = Inr (Array [Device ''SN-000''])"
    by (simp add: constants_def flaky_env_def new_world_def)
  have h2: "\<forall>k \<le> MAX_RETRIES constants.
      isl (post dead_env (calls (new_world 0 :: string world) + k) [''SN-000''])"
    by (simp add: dead_env_def)
  have c: "calls (new_world 0 :: string world) = 0" "timers (new_world 0 :: string world) = 0"
    "this_errors (new_world 0 :: string world) = []" "MAX_RETRIES constants = 3"
    by (simp_all add: new_world_def constants_def)
  from fetchBatchWithRetry_terminal[of 2 constants flaky_env "new_world 0" "[''SN-000'']"
          "Array [Device ''SN-000'']" 0] h1
  have a: "\<exists>w'. fetchBatchWithRetry flaky_env constants [''SN-000''] 0 0 (new_world 0)
            = (Resolved (Array [Device ''SN-000'']), w')
        \<and> calls w' = 3 \<and> timers w' = 2 \<and> this_errors w' = []"
    unfolding c by (simp add: eval_nat_numeral)
  from fetchBatchWithRetry_terminal[of 0 constants dead_env "new_world 0" "[''SN-000'']"
          "Array []" 0] h2
  have b: "\<exists>w' f. fetchBatchWithRetry dead_env constants [''SN-000''] 0 0 (new_world 0)
            = (Resolved (Array []), w')
        \<and> calls w' = 4 \<and> timers w' = 3 \<and> this_errors w' = [f]"
    unfolding c by simp
  from a b show ?thesis by (rule conjI)
qed

text \<open>
  C2 (as the specification states it): the failure entry records the zero-based batch
  index.  The batch at index 0, failing for good, is recorded under number 1.
\<close>

theorem failure_entry_index_counterexample:
  "batch (last (this_errors (snd
      (fetchBatchWithRetry dead_env constants [''SN-000''] 0 0 (new_world 0))))) \<noteq> 0"
  by code_simp

text \<open>
  C2 (amended).  A task that fails for good appends one entry holding the one-based
  number of its batch (its index plus one), all serial numbers of the batch and the
  message of the last error.  Entries are only ever appended: no retrying fetch and no
  saving of the results changes an entry that is already there.
\<close>

theorem failure_entry_recorded:
  "((\<forall>k \<le> MAX_RETRIES cfg. isl (post env (calls w + k) b))
      \<longrightarrow> this_errors (snd (fetchBatchWithRetry env cfg b idx 0 w)) =
            this_errors w @
              [\<lparr> batch = idx + 1, serialNumbers = b,
                 error = errorMessage (projl (post env (calls w + MAX_RETRIES cfg) b)) \<rparr>])
   \<and> take (length (this_errors w)) (this_errors (snd (fetchBatchWithRetry env cfg b' idx' r' w)))
       = this_errors w
   \<and> this_errors (saveResults env cfg ds w) = this_errors w"
proof (intro conjI impI)
  assume "\<forall>k \<le> MAX_RETRIES cfg. isl (post env (calls w + k) b)"
  then show "this_errors (snd (fetchBatchWithRetry env cfg b idx 0 w)) =
            this_errors w @
              [\<lparr> batch = idx + 1, serialNumbers = b,
                 error = errorMessage (projl (post env (calls w + MAX_RETRIES cfg) b)) \<rparr>]"
    using retry_exhausted[of 0 cfg env w b idx] by auto
next
  show "take (length (this_errors w)) (this_errors (snd (fetchBatchWithRetry env cfg b' idx' r' w)))
       = this_errors w"
    using retry_resolves[of env cfg b' idx' r' w] by auto
next
  show "this_errors (saveResults env cfg ds w) = this_errors w"
    by (simp add: saveResults_def Let_def)
qed

theorem failure_entry_recorded_witness:
  "this_errors (snd (fetchBatchWithRetry dead_env constants [''SN-010'', ''SN-011''] 1 0 (new_world 0)))
     = [\<lparr> batch = 2, serialNumbers = [''SN-010'', ''SN-011''],
          error = ''API Error [500]: Unknown error'' \<rparr>]"
proof -
  have h: "\<forall>k \<le> MAX_RETRIES constants.
      isl (post dead_env (calls (new_world 0 :: string world) + k) [''SN-010'', ''SN-011''])"
    by (simp add: dead_env_def)
  have m: "errorMessage (projl (post dead_env (calls (new_world 0 :: string world) + MAX_RETRIES constants)
             [''SN-010'', ''SN-011''])) = ''API Error [500]: Unknown error''"
    by code_simp
  have e: "this_errors (new_world 0 :: string world) = []" by (simp add: new_world_def)
  from failure_entry_recorded[of constants dead_env "new_world 0" "[''SN-010'', ''SN-011'']" 1] h
  show ?thesis unfolding m e by simp
qed

section \<open>The rate limiter as a machine\<close>

lemmas step_defs = schedule_def processQueue_def iterate_def admit_def wake_def complete_def
  calculateDelay_def sleep_def Let_def

lemma control_cases:
  assumes "control_inv s"
  obtains (idle) "loops s = []" "queue s = []" "\<not> isProcessing s"
    | (sleeping) e d where "loops s = [Sleeping e d]" "isProcessing s"
    | (running) e where "loops s = [Running e]" "isProcessing s"
proof (cases "loops s")
  case Nil
  with assms idle show ?thesis by (simp add: control_inv_def)
next
  case (Cons a as)
  with assms have as: "as = []" and p: "isProcessing s" by (simp_all add: control_inv_def)
  show ?thesis
  proof (cases a)
    case (Sleeping e d)
    with Cons as p sleeping show ?thesis by simp
  next
    case (Running e)
    with Cons as p running show ?thesis by simp
  qed
qed

lemma control_inv_step: "control_inv s \<Longrightarrow> control_inv (step env ev s)"
proof (cases ev)
  case (Schedule t)
  assume "control_inv s"
  then show ?thesis
    by (cases rule: control_cases)
       (auto simp: Schedule control_inv_def step_defs split: list.splits)
next
  case (Tick d)
  assume "control_inv s"
  then show ?thesis by (simp add: Tick control_inv_def)
next
  case (Wake k)
  assume "control_inv s"
  then show ?thesis
    by (cases rule: control_cases)
       (auto simp: Wake control_inv_def step_defs split: list.splits)
next
  case (Complete k)
  assume "control_inv s"
  then show ?thesis
    by (cases rule: control_cases)
       (auto simp: Complete control_inv_def step_defs split: list.splits prod.splits outcome.splits)
qed

lemma order_bound:
  assumes "order_inv s"
  shows "(h, out) \<in> set (settled s) \<Longrightarrow> h < length (submitted s)"
    and "a \<in> set (loops s) \<Longrightarrow> handle (entry_of a) < length (submitted s)"
    and "e \<in> set (queue s) \<Longrightarrow> handle e < length (submitted s)"
proof -
  let ?l = "map fst (settled s) @ map (\<lambda>a. handle (entry_of a)) (loops s) @ map handle (queue s)"
  from assms have eq: "?l = [0..<length (submitted s)]"
    unfolding order_inv_def by blast
  have *: "k < length (submitted s)" if "k \<in> set ?l" for k
  proof -
    from that have "k \<in> set [0..<length (submitted s)]" by (simp only: eq)
    then show ?thesis by simp
  qed
  show "h < length (submitted s)" if "(h, out) \<in> set (settled s)"
  proof (rule *)
    from that have "fst (h, out) \<in> fst ` set (settled s)" by (rule imageI)
    then show "h \<in> set ?l" by simp
  qed
  show "handle (entry_of a) < length (submitted s)" if "a \<in> set (loops s)"
    by (rule *) (use that in simp)
  show "handle e < length (submitted s)" if "e \<in> set (queue s)"
    by (rule *) (use that in simp)
qed

lemma order_inv_step:
  assumes c: "control_inv s" and h: "order_inv s"
  shows "order_inv (step env ev s)"
proof (cases ev)
  case (Schedule t)
  from c h show ?thesis
    by (cases rule: control_cases)
       (auto simp: Schedule order_inv_def step_defs)
next
  case (Tick d)
  with h show ?thesis by (simp add: order_inv_def)
next
  case (Wake k)
  from c h show ?thesis
    by (cases rule: control_cases)
       (auto simp: Wake order_inv_def step_defs)
next
  case (Complete k)
  from c h show ?thesis
    by (cases rule: control_cases)
       (auto simp: Complete order_inv_def step_defs split: list.splits prod.splits outcome.splits)
qed

lemma origin_inv_step:
  assumes c: "control_inv s" and o: "order_inv s" and h: "origin_inv s"
  shows "origin_inv (step env ev s)"
proof (cases ev)
  case (Schedule t)
  note b = order_bound[OF o]
  from c show ?thesis
  proof (cases rule: control_cases)
    case idle
    with h b(1) show ?thesis
      by (auto simp: Schedule origin_inv_def step_defs nth_append)
  next
    case (sleeping e d)
    with h b show ?thesis
      by (auto simp: Schedule origin_inv_def step_defs nth_append)
  next
    case (running e)
    with h b show ?thesis
      by (auto simp: Schedule origin_inv_def step_defs nth_append)
  qed
next
  case (Tick d)
  with h show ?thesis by (simp add: origin_inv_def)
next
  case (Wake k)
  from c h show ?thesis
    by (cases rule: control_cases)
       (auto simp: Wake origin_inv_def step_defs)
next
  case (Complete k)
  from c h show ?thesis
    apply (cases rule: control_cases)
      apply (auto simp: Complete origin_inv_def step_defs split: list.splits prod.splits outcome.splits)
       apply (metis fst_conv)+
    done
qed

lemma spaced_snoc:
  "spaced I (ts @ [t]) \<longleftrightarrow> spaced I ts \<and> (ts \<noteq> [] \<longrightarrow> last ts + I \<le> t)"
  by (induction I ts rule: spaced.induct) auto

lemma spaced_nth:
  "spaced I ts \<Longrightarrow> Suc i < length ts \<Longrightarrow> ts ! i + I \<le> ts ! Suc i"
proof (induction I ts arbitrary: i rule: spaced.induct)
  case (3 I t u ts)
  then show ?case by (cases i) auto
qed auto

lemma spaced_span:
  "spaced I ts \<Longrightarrow> ts \<noteq> [] \<Longrightarrow> hd ts + (int (length ts) - 1) * I \<le> last ts"
proof (induction I ts rule: spaced.induct)
  case (3 I t u ts)
  then have "u + (int (length (u # ts)) - 1) * I \<le> last (u # ts)" by simp
  moreover from 3 have "t + I \<le> u" by simp
  ultimately show ?case by (simp add: algebra_simps)
qed auto

lemma intervalMs_step: "intervalMs (step env ev s) = intervalMs s"
  by (cases ev)
     (auto simp: step_defs split: list.splits prod.splits outcome.splits activation.splits)

lemma timing_inv_step:
  assumes c: "control_inv s" and h: "timing_inv s"
  shows "timing_inv (step env ev s)"
proof (cases ev)
  case (Schedule t)
  from c h show ?thesis
    by (cases rule: control_cases)
       (auto simp: Schedule timing_inv_def step_defs spaced_snoc last_map)
next
  case (Tick d)
  from c h show ?thesis
    by (cases rule: control_cases) (auto simp: Tick timing_inv_def)
next
  case (Wake k)
  from c h show ?thesis
    by (cases rule: control_cases)
       (auto simp: Wake timing_inv_def step_defs spaced_snoc last_map)
next
  case (Complete k)
  from c h show ?thesis
    by (cases rule: control_cases)
       (auto simp: Complete timing_inv_def step_defs spaced_snoc last_map
             split: list.splits prod.splits outcome.splits)
qed

lemma exec_Nil: "exec env [] s = s"
  by (simp add: exec_def)

lemma exec_snoc: "exec env (evs @ [ev]) s = step env ev (exec env evs s)"
  by (simp add: exec_def)

lemma initial_invs:
  "control_inv (RateLimiter I w)" "order_inv (RateLimiter I w)" "origin_inv (RateLimiter I w)"
  "timing_inv (RateLimiter I w)"
  by (simp_all add: control_inv_def order_inv_def origin_inv_def timing_inv_def RateLimiter_def)

lemma exec_invs:
  assumes "control_inv s" "order_inv s" "origin_inv s" "timing_inv s"
  shows "control_inv (exec env evs s) \<and> order_inv (exec env evs s)
       \<and> origin_inv (exec env evs s) \<and> timing_inv (exec env evs s)"
proof (induction evs rule: rev_induct)
  case Nil
  with assms show ?case by (simp add: exec_Nil)
next
  case (snoc ev evs)
  then show ?case
    by (simp add: exec_snoc control_inv_step order_inv_step origin_inv_step timing_inv_step)
qed

lemma exec_intervalMs: "intervalMs (exec env evs s) = intervalMs s"
  by (induction evs rule: rev_induct) (simp_all add: exec_Nil exec_snoc intervalMs_step)

lemma upt_split:
  assumes "xs @ ys = [0..<n]"
  shows "xs = [0..<length xs]" and "ys = [length xs..<n]"
proof -
  from assms have "length (xs @ ys) = n" by simp
  then have len: "length xs + length ys = n" by simp
  have nth: "(xs @ ys) ! i = i" if "i < n" for i
    using that by (simp only: assms) simp
  show "xs = [0..<length xs]"
  proof (rule nth_equalityI)
    fix i assume i: "i < length xs"
    then have "xs ! i = (xs @ ys) ! i" by (simp add: nth_append)
    also have "\<dots> = i" using i len by (intro nth) simp
    finally show "xs ! i = [0..<length xs] ! i" using i by simp
  qed simp
  show "ys = [length xs..<n]"
  proof (rule nth_equalityI)
    show "length ys = length [length xs..<n]" using len by simp
    fix i assume i: "i < length ys"
    then have "ys ! i = (xs @ ys) ! (length xs + i)" by simp
    also have "\<dots> = length xs + i" using i len by (intro nth) simp
    finally show "ys ! i = [length xs..<n] ! i" using i len by simp
  qed
qed

lemma map_nth_upt_drop: "map ((!) xs) [k..<length xs] = drop k xs"
  by (rule nth_equalityI) simp_all

text \<open>
  C4.  In every execution of the limiter, whatever is scheduled and whenever, and however
  late its timers fire, any two consecutive admissions are at least the configured
  interval apart; so between the first and the last of \<open>N\<close> admissions at least
  \<open>(N - 1)\<close> intervals pass.  (\<open>sleep\<close> advances the clock by at least the delay asked
  for, and \<open>Tick\<close> never turns it back.)
\<close>

theorem admissions_spaced:
  "let s = exec env evs (RateLimiter I w0) in
     (\<forall>i. Suc i < length (admitted s) \<longrightarrow> snd (admitted s ! i) + I \<le> snd (admitted s ! Suc i))
   \<and> (admitted s \<noteq> [] \<longrightarrow>
        snd (hd (admitted s)) + (int (length (admitted s)) - 1) * I \<le> snd (last (admitted s)))"
proof -
  define s where "s = exec env evs (RateLimiter I w0 :: ('a, 'b) limiter)"
  have "timing_inv s" unfolding s_def using exec_invs[OF initial_invs] by blast
  moreover have "intervalMs s = I" by (simp add: s_def exec_intervalMs RateLimiter_def)
  ultimately have sp: "spaced I (map snd (admitted s))" by (simp add: timing_inv_def)
  have a: "snd (admitted s ! i) + I \<le> snd (admitted s ! Suc i)" if "Suc i < length (admitted s)" for i
    using spaced_nth[OF sp, of i] that by simp
  have b: "snd (hd (admitted s)) + (int (length (admitted s)) - 1) * I \<le> snd (last (admitted s))"
    if "admitted s \<noteq> []"
    using spaced_span[OF sp] that by (simp add: hd_map last_map)
  from a b show ?thesis unfolding s_def[symmetric] Let_def by blast
qed

theorem admissions_spaced_witness:
  "length (admitted (exec flaky_env example_events (RateLimiter 1000 (new_world 5000)))) = 3
   \<and> (let s = exec flaky_env example_events (RateLimiter 1000 (new_world 5000)) in
        snd (admitted s ! 0) + 1000 \<le> snd (admitted s ! 1)
      \<and> snd (admitted s ! 1) + 1000 \<le> snd (admitted s ! 2)
      \<and> snd (hd (admitted s)) + 2 * 1000 \<le> snd (last (admitted s)))"
proof -
  define s where "s = exec flaky_env example_events (RateLimiter 1000 (new_world 5000))"
  have len: "length (admitted s) = 3" unfolding s_def by code_simp
  then have ne: "admitted s \<noteq> []" by auto
  note t = admissions_spaced[of flaky_env example_events 1000 "new_world 5000",
      unfolded Let_def, folded s_def]
  from t have g: "\<And>i. Suc i < length (admitted s) \<Longrightarrow>
      snd (admitted s ! i) + 1000 \<le> snd (admitted s ! Suc i)" by blast
  from g[of 0] len have a: "snd (admitted s ! 0) + 1000 \<le> snd (admitted s ! 1)" by simp
  from g[of 1] len have b: "snd (admitted s ! 1) + 1000 \<le> snd (admitted s ! 2)"
    by (simp add: numeral_2_eq_2)
  from t ne len have c: "snd (hd (admitted s)) + 2 * 1000 \<le> snd (last (admitted s))" by simp
  from len a b c show ?thesis unfolding s_def Let_def by blast
qed

text \<open>
  C5.  In every reachable state of the limiter at most one task is running: at most
  one admitted promise is not yet settled.  Promises are admitted in the order in which
  they were submitted and settled in that same order, and what is still pending (the
  entry of the activation, then the queue) is exactly the rest of the submitted tasks, in
  submission order.
\<close>

theorem scheduler_fifo:
  "let s = exec env evs (RateLimiter I w0) in
     length (filter is_running (loops s)) \<le> 1
   \<and> length (settled s) \<le> length (admitted s)
   \<and> length (admitted s) \<le> length (settled s) + 1
   \<and> map fst (admitted s) = [0..<length (admitted s)]
   \<and> map fst (settled s) = [0..<length (settled s)]
   \<and> map task (map entry_of (loops s) @ queue s) = drop (length (settled s)) (submitted s)"
proof -
  define s where "s = exec env evs (RateLimiter I w0 :: ('a, 'b) limiter)"
  have c: "control_inv s" and o: "order_inv s" and g: "origin_inv s"
    unfolding s_def using exec_invs[OF initial_invs] by blast+
  let ?run = "map (\<lambda>a. handle (entry_of a)) (filter is_running (loops s))"
  let ?pend = "map entry_of (loops s) @ queue s"
  from c have l1: "length (loops s) \<le> 1" by (simp add: control_inv_def)
  have "length (filter is_running (loops s)) \<le> length (loops s)" by (rule length_filter_le)
  from this l1 have one: "length (filter is_running (loops s)) \<le> 1" by (rule order_trans)
  from o have adm: "map fst (admitted s) = map fst (settled s) @ ?run"
    and all: "map fst (settled s) @ map handle ?pend = [0..<length (submitted s)]"
    by (simp_all add: order_inv_def comp_def)
  from adm have "length (admitted s) = length (settled s) + length (filter is_running (loops s))"
    by (metis length_append length_map)
  with one have len: "length (settled s) \<le> length (admitted s)"
     "length (admitted s) \<le> length (settled s) + 1" by simp_all
  from upt_split[OF all] have st: "map fst (settled s) = [0..<length (settled s)]"
    and pe: "map handle ?pend = [length (settled s)..<length (submitted s)]" by simp_all
  have "\<exists>zs. map fst (admitted s) @ zs = [0..<length (submitted s)]"
  proof (cases "loops s")
    case Nil
    with adm all show ?thesis by auto
  next
    case (Cons a as)
    with l1 have "loops s = [a]" by simp
    with adm all show ?thesis by (cases a) auto
  qed
  then obtain zs where "map fst (admitted s) @ zs = [0..<length (submitted s)]" ..
  from upt_split(1)[OF this] have ad: "map fst (admitted s) = [0..<length (admitted s)]" by simp
  have "map task ?pend = map (\<lambda>e. submitted s ! handle e) ?pend"
    using g by (auto simp: origin_inv_def)
  also have "\<dots> = map ((!) (submitted s)) (map handle ?pend)" by simp
  also have "\<dots> = drop (length (settled s)) (submitted s)"
    by (simp only: pe map_nth_upt_drop)
  finally have pt: "map task ?pend = drop (length (settled s)) (submitted s)" .
  from one len ad st pt show ?thesis unfolding s_def[symmetric] Let_def by blast
qed

section \<open>The limiter against the design's drain loop\<close>

lemma drain_spec_Cons:
  "drain_spec env I l (t # ts) w =
     (let delay = max 0 (I - (now w - l));
          w1 = (if delay > 0 then sleep env delay w else w)
      in drain_admitted env I (now w1) t ts w1)"
  by (simp add: drain_admitted_def Let_def)


lemma settled_prefix:
  assumes "order_inv s"
  shows "map fst (settled s) = [0..<length (settled s)]"
proof -
  from assms have "\<exists>ys. map fst (settled s) @ ys = [0..<length (submitted s)]"
    unfolding order_inv_def by blast
  then obtain ys where "map fst (settled s) @ ys = [0..<length (submitted s)]" ..
  from upt_split(1)[OF this] show ?thesis by simp
qed

lemma unsettled:
  assumes "order_inv s" "length (settled s) \<le> h"
  shows "map_of (settled s) h = None"
proof -
  have "set (map fst (settled s)) = set [0..<length (settled s)]"
    using settled_prefix[OF assms(1)] by (rule arg_cong)
  with assms(2) have "h \<notin> set (map fst (settled s))" by simp
  then show ?thesis by (simp only: map_of_eq_None_iff set_map) simp
qed




lemma map_of_snoc_hit: "map_of xs h = None \<Longrightarrow> map_of (xs @ [(h, v)]) h = Some v"
  by (simp add: map_add_def)


lemma drain_spec_length: "length (fst (drain_spec env I l ts w)) = length ts"
proof (induction ts arbitrary: l w)
  case Nil
  show ?case by simp
next
  case (Cons t ts)
  define w1 where "w1 = (if 0 < max 0 (I - (now w - l)) then sleep env (max 0 (I - (now w - l))) w else w)"
  obtain out w2 where t: "t w1 = (out, w2)" by (cases "t w1")
  obtain outs w3 l3 where d: "drain_spec env I (now w1) ts w2 = (outs, w3, l3)"
    by (cases "drain_spec env I (now w1) ts w2")
  from Cons[of "now w1" w2] d have "length outs = length ts" by simp
  then show ?case using t d by (simp add: Let_def w1_def[symmetric])
qed





section \<open>Draining through executeAll\<close>

lemma calculateDelay_max:
  "calculateDelay s = max 0 (intervalMs s - (now (world s) - lastRequestTime s))"
  by (simp add: calculateDelay_def Let_def max_def)

lemma fresh_handle:
  assumes "control_inv s" "order_inv s" "loops s = []"
  shows "map_of (settled s) (length (submitted s)) = None"
    and "length (settled s) = length (submitted s)"
proof -
  from assms have "queue s = []" by (simp add: control_inv_def)
  with assms have *: "map fst (settled s) = [0..<length (submitted s)]" by (simp add: order_inv_def)
  then have "length (map fst (settled s)) = length [0..<length (submitted s)]" by (rule arg_cong)
  then show len: "length (settled s) = length (submitted s)" by simp
  show "map_of (settled s) (length (submitted s)) = None"
    by (rule unsettled[OF assms(2)]) (simp add: len)
qed

text \<open>Awaiting a task scheduled on a limiter at rest is one iteration of the design's
  loop: the sleep the rate limit asks for, then the task, run on the world as it is then.\<close>

lemma awaitSchedule_idle:
  assumes c: "control_inv s" and o: "order_inv s" and l: "loops s = []"
    and w1: "w1 = (if 0 < max 0 (intervalMs s - (now (world s) - lastRequestTime s))
                   then sleep env (max 0 (intervalMs s - (now (world s) - lastRequestTime s))) (world s)
                   else world s)"
  shows "\<exists>s'. awaitSchedule env t s = Some (fst (t w1), s')
           \<and> control_inv s' \<and> order_inv s' \<and> loops s' = []
           \<and> world s' = snd (t w1) \<and> lastRequestTime s' = now w1
           \<and> intervalMs s' = intervalMs s
           \<and> submitted s' = submitted s @ [t]
           \<and> settled s' = settled s @ [(length (submitted s), fst (t w1))]
           \<and> length (admitted s') = Suc (length (admitted s))"
proof -
  define n where "n = length (submitted s)"
  define e where "e = \<lparr> task = t, handle = n \<rparr>"
  define d where "d = calculateDelay s"
  have w1': "w1 = (if d > 0 then sleep env d (world s) else world s)"
    unfolding w1 d_def calculateDelay_max ..
  define s1 where "s1 = schedule t s"
  from c l have q: "queue s = []" and p: "\<not> isProcessing s" by (simp_all add: control_inv_def)
  have fresh: "map_of (settled s) n = None" unfolding n_def by (rule fresh_handle[OF c o l])
  have st1: "s1 = step env (Schedule t) s" by (simp add: s1_def)
  have inv1: "control_inv s1" "order_inv s1"
    unfolding st1 using c o by (simp_all only: control_inv_step order_inv_step)
  have s1_fields: "queue s1 = []" "settled s1 = settled s" "submitted s1 = submitted s @ [t]"
    "intervalMs s1 = intervalMs s"
    using q p l by (auto simp: s1_def step_defs)
  have s1_loops: "loops s1 = (if d > 0 then [Sleeping e d] else [Running e])"
    using q p l by (auto simp: s1_def step_defs d_def e_def n_def)
  have s1_world: "world s1 = world s" using q p l by (auto simp: s1_def step_defs)
  have s1_adm: "admitted s1 = (if d > 0 then admitted s else admitted s @ [(n, now (world s))])"
    using q p l by (auto simp: s1_def step_defs d_def e_def n_def)
  have s1_last: "\<not> d > 0 \<Longrightarrow> lastRequestTime s1 = now (world s)"
    using q p l by (auto simp: s1_def step_defs d_def e_def n_def)
  define s2 where "s2 = (if d > 0 then wake env 0 s1 else s1)"
  have st2: "s2 = (if d > 0 then step env (Wake 0) s1 else s1)" by (simp add: s2_def)
  have inv2: "control_inv s2" "order_inv s2"
    unfolding st2 using inv1 by (simp_all add: control_inv_step order_inv_step del: step.simps)
  have s2_fields: "queue s2 = []" "settled s2 = settled s" "submitted s2 = submitted s @ [t]"
    "intervalMs s2 = intervalMs s" "loops s2 = [Running e]" "world s2 = w1"
    "length (admitted s2) = Suc (length (admitted s))" "lastRequestTime s2 = now w1"
    using s1_fields s1_loops s1_world s1_adm s1_last
    by (auto simp: s2_def w1' wake_def admit_def)
  have a1: "awaitPromise env n s1 = awaitPromise env n s2"
  proof (cases "d > 0")
    case True
    with fresh s1_fields s1_loops show ?thesis
      by (subst awaitPromise.simps) (simp add: s2_def)
  next
    case False
    then show ?thesis by (simp add: s2_def)
  qed
  define s3 where "s3 = complete 0 s2"
  have st3: "s3 = step env (Complete 0) s2" by (simp add: s3_def)
  have inv3: "control_inv s3" "order_inv s3"
    unfolding st3 using inv2 by (simp_all only: control_inv_step order_inv_step)
  have s3_fields: "loops s3 = []" "world s3 = snd (t w1)" "submitted s3 = submitted s @ [t]"
    "length (admitted s3) = Suc (length (admitted s))" "intervalMs s3 = intervalMs s"
    "settled s3 = settled s @ [(n, fst (t w1))]" "lastRequestTime s3 = now w1"
    using s2_fields
    by (auto simp: s3_def complete_def iterate_def e_def split: prod.splits outcome.splits)
  have a2: "awaitPromise env n s2 = awaitPromise env n s3"
    using fresh s2_fields by (subst awaitPromise.simps) (simp add: s3_def)
  have a3: "awaitPromise env n s3 = Some (fst (t w1), s3)"
  proof -
    have "map_of (settled s3) n = Some (fst (t w1))"
      unfolding s3_fields(6) by (rule map_of_snoc_hit[OF fresh])
    then show ?thesis by (subst awaitPromise.simps) simp
  qed
  have "awaitSchedule env t s = Some (fst (t w1), s3)"
    unfolding awaitSchedule_def using a1 a2 a3 by (simp add: s1_def n_def)
  then show ?thesis using inv3 s3_fields unfolding n_def by blast
qed

lemma zip_upt_Cons: "n < m \<Longrightarrow> zip [n..<m] (x # xs) = (n, x) # zip [Suc n..<m] xs"
  by (simp add: upt_conv_Cons)

text \<open>\<open>executeAll\<close> against the design's loop: as long as the tasks resolve it collects
  their values; at the first task that rejects it stops with that error.\<close>

lemma executeAll_loop_resolves:
  assumes "control_inv s" "order_inv s" "loops s = []"
    and "fst (drain_spec env (intervalMs s) (lastRequestTime s) ts (world s)) = map Resolved rs"
  shows "\<exists>s'. executeAll_loop env ts acc s = Some (Resolved (acc @ rs), s')
           \<and> control_inv s' \<and> order_inv s' \<and> loops s' = []
           \<and> world s' = fst (snd (drain_spec env (intervalMs s) (lastRequestTime s) ts (world s)))
           \<and> intervalMs s' = intervalMs s
           \<and> submitted s' = submitted s @ ts
           \<and> settled s' = settled s @
                zip [length (submitted s)..<length (submitted s) + length ts] (map Resolved rs)"
  using assms
proof (induction ts arbitrary: s acc rs)
  case Nil
  then show ?case by simp
next
  case (Cons t ts)
  let ?I = "intervalMs s"
  define w1 where "w1 = (if 0 < max 0 (?I - (now (world s) - lastRequestTime s))
                   then sleep env (max 0 (?I - (now (world s) - lastRequestTime s))) (world s)
                   else world s)"
  have sp: "drain_spec env ?I (lastRequestTime s) (t # ts) (world s)
      = (fst (t w1) # fst (drain_spec env ?I (now w1) ts (snd (t w1))),
         snd (drain_spec env ?I (now w1) ts (snd (t w1))))"
    by (simp add: Let_def w1_def split: prod.splits)
  from Cons.prems(4) obtain r rs' where rs: "rs = r # rs'" "fst (t w1) = Resolved r"
    "fst (drain_spec env ?I (now w1) ts (snd (t w1))) = map Resolved rs'"
    unfolding sp by (cases rs) auto
  from awaitSchedule_idle[OF Cons.prems(1-3) w1_def, of t]
  obtain s1 where a: "awaitSchedule env t s = Some (fst (t w1), s1)"
    "control_inv s1" "order_inv s1" "loops s1 = []"
    "world s1 = snd (t w1)" "lastRequestTime s1 = now w1" "intervalMs s1 = ?I"
    "submitted s1 = submitted s @ [t]"
    "settled s1 = settled s @ [(length (submitted s), fst (t w1))]"
    by blast
  from rs(3) a(5,6,7)
  have "fst (drain_spec env (intervalMs s1) (lastRequestTime s1) ts (world s1)) = map Resolved rs'"
    by simp
  from Cons.IH[OF a(2-4) this, of "acc @ [r]"]
  obtain s' where b: "executeAll_loop env ts (acc @ [r]) s1 = Some (Resolved ((acc @ [r]) @ rs'), s')"
    "control_inv s'" "order_inv s'" "loops s' = []"
    "world s' = fst (snd (drain_spec env (intervalMs s1) (lastRequestTime s1) ts (world s1)))"
    "intervalMs s' = intervalMs s1" "submitted s' = submitted s1 @ ts"
    "settled s' = settled s1 @
       zip [length (submitted s1)..<length (submitted s1) + length ts] (map Resolved rs')"
    by blast
  have e: "executeAll_loop env (t # ts) acc s = Some (Resolved (acc @ rs), s')"
    using a(1) b(1) rs by simp
  have z: "settled s' = settled s @
       zip [length (submitted s)..<length (submitted s) + length (t # ts)] (map Resolved rs)"
    using b(8) a(8,9) rs by (simp add: zip_upt_Cons del: upt_Suc)
  show ?case using e b(2-4) b(5-7) a(5-8) z by (simp add: sp del: drain_spec.simps upt_Suc)
qed

lemma executeAll_loop_rejects:
  assumes "control_inv s" "order_inv s" "loops s = []"
    and "fst (drain_spec env (intervalMs s) (lastRequestTime s) (pre @ [t]) (world s))
           = map Resolved rs @ [Rejected e]"
  shows "\<exists>s'. executeAll_loop env (pre @ t # rest) acc s = Some (Rejected e, s')
           \<and> world s' = fst (snd (drain_spec env (intervalMs s) (lastRequestTime s) (pre @ [t]) (world s)))
           \<and> submitted s' = submitted s @ pre @ [t]
           \<and> settled s' = settled s @
                zip [length (submitted s)..<length (submitted s) + Suc (length pre)]
                    (map Resolved rs @ [Rejected e])"
  using assms
proof (induction pre arbitrary: s acc rs)
  case Nil
  let ?I = "intervalMs s"
  define w1 where "w1 = (if 0 < max 0 (?I - (now (world s) - lastRequestTime s))
                   then sleep env (max 0 (?I - (now (world s) - lastRequestTime s))) (world s)
                   else world s)"
  have sp: "drain_spec env ?I (lastRequestTime s) [t] (world s) = ([fst (t w1)], snd (t w1), now w1)"
    by (simp add: Let_def w1_def split: prod.splits)
  from Nil.prems(4) have rs: "rs = []" "fst (t w1) = Rejected e"
    unfolding append_Nil sp by (cases rs; simp)+
  have z0: "[length (submitted s)..<Suc (length (submitted s))] = [length (submitted s)]"
    by simp
  from awaitSchedule_idle[OF Nil.prems(1-3) w1_def, of t]
  obtain s1 where a: "awaitSchedule env t s = Some (fst (t w1), s1)"
    "world s1 = snd (t w1)" "submitted s1 = submitted s @ [t]"
    "settled s1 = settled s @ [(length (submitted s), fst (t w1))]"
    by blast
  show ?case using a rs by (simp add: sp del: drain_spec.simps)
next
  case (Cons p pre)
  let ?I = "intervalMs s"
  define w1 where "w1 = (if 0 < max 0 (?I - (now (world s) - lastRequestTime s))
                   then sleep env (max 0 (?I - (now (world s) - lastRequestTime s))) (world s)
                   else world s)"
  have sp: "drain_spec env ?I (lastRequestTime s) (p # pre @ [t]) (world s)
      = (fst (p w1) # fst (drain_spec env ?I (now w1) (pre @ [t]) (snd (p w1))),
         snd (drain_spec env ?I (now w1) (pre @ [t]) (snd (p w1))))"
    by (simp add: Let_def w1_def split: prod.splits)
  have "length (fst (drain_spec env ?I (now w1) (pre @ [t]) (snd (p w1)))) = Suc (length pre)"
    by (simp add: drain_spec_length)
  with Cons.prems(4) obtain r rs' where rs: "rs = r # rs'" "fst (p w1) = Resolved r"
    "fst (drain_spec env ?I (now w1) (pre @ [t]) (snd (p w1))) = map Resolved rs' @ [Rejected e]"
    by (cases rs) (auto simp: sp simp del: drain_spec.simps)
  from awaitSchedule_idle[OF Cons.prems(1-3) w1_def, of p]
  obtain s1 where a: "awaitSchedule env p s = Some (fst (p w1), s1)"
    "control_inv s1" "order_inv s1" "loops s1 = []"
    "world s1 = snd (p w1)" "lastRequestTime s1 = now w1" "intervalMs s1 = ?I"
    "submitted s1 = submitted s @ [p]"
    "settled s1 = settled s @ [(length (submitted s), fst (p w1))]"
    by blast
  from rs(3) a(5,6,7)
  have "fst (drain_spec env (intervalMs s1) (lastRequestTime s1) (pre @ [t]) (world s1))
      = map Resolved rs' @ [Rejected e]"
    by simp
  from Cons.IH[OF a(2-4) this, of "acc @ [r]"]
  obtain s' where b: "executeAll_loop env (pre @ t # rest) (acc @ [r]) s1 = Some (Rejected e, s')"
    "world s' = fst (snd (drain_spec env (intervalMs s1) (lastRequestTime s1) (pre @ [t]) (world s1)))"
    "submitted s' = submitted s1 @ pre @ [t]"
    "settled s' = settled s1 @
       zip [length (submitted s1)..<length (submitted s1) + Suc (length pre)]
           (map Resolved rs' @ [Rejected e])"
    by blast
  have e: "executeAll_loop env ((p # pre) @ t # rest) acc s = Some (Rejected e, s')"
    using a(1) b(1) rs by simp
  have z: "settled s' = settled s @
       zip [length (submitted s)..<length (submitted s) + Suc (length (p # pre))]
           (map Resolved rs @ [Rejected e])"
    using b(4) a(8,9) rs by (simp add: zip_upt_Cons del: upt_Suc)
  show ?case using e b(2,3) a(5-8) z by (simp add: sp del: drain_spec.simps upt_Suc)
qed

text \<open>
  C10.  Give \<open>executeAll\<close> on a fresh limiter the tasks \<open>pre\<close>, then \<open>t\<close>, then any
  tasks \<open>rest\<close>.  If, run one after the other as the design says, the tasks of \<open>pre\<close>
  resolve and \<open>t\<close> rejects with an error, then \<open>executeAll\<close> returns, rejected with that
  error and without a list of results.  Exactly the tasks of \<open>pre\<close> and \<open>t\<close> were
  submitted and settled, and the world is the one \<open>t\<close> left: no task of \<open>rest\<close> was
  submitted or run.
\<close>

theorem executeAll_stops_at_rejection:
  fixes env :: "'d env" and t :: "('d, 'r) task"
  assumes "fst (drain_spec env I 0 (pre @ [t]) w0) = map Resolved rs @ [Rejected e]"
  shows "\<exists>s'. executeAll env (pre @ t # rest) (RateLimiter I w0) = Some (Rejected e, s')
           \<and> submitted s' = pre @ [t]
           \<and> settled s' = zip [0..<Suc (length pre)] (map Resolved rs @ [Rejected e])
           \<and> world s' = fst (snd (drain_spec env I 0 (pre @ [t]) w0))"
proof -
  define s0 where "s0 = (RateLimiter I w0 :: ('d, 'r) limiter)"
  have inv0: "control_inv s0" "order_inv s0" "loops s0 = []"
    by (simp_all add: s0_def initial_invs) (simp add: RateLimiter_def)
  have f: "intervalMs s0 = I" "lastRequestTime s0 = 0" "world s0 = w0" "submitted s0 = []"
    "settled s0 = []"
    by (simp_all add: s0_def RateLimiter_def)
  from assms have "fst (drain_spec env (intervalMs s0) (lastRequestTime s0) (pre @ [t]) (world s0))
      = map Resolved rs @ [Rejected e]" by (simp add: f)
  from executeAll_loop_rejects[OF inv0 this, of rest "[]"]
  obtain s' where "executeAll_loop env (pre @ t # rest) [] s0 = Some (Rejected e, s')"
    "world s' = fst (snd (drain_spec env I 0 (pre @ [t]) w0))"
    "submitted s' = pre @ [t]"
    "settled s' = zip [0..<Suc (length pre)] (map Resolved rs @ [Rejected e])"
    by (auto simp: f simp del: upt_Suc)
  then show ?thesis unfolding executeAll_def s0_def[symmetric] by blast
qed

theorem executeAll_stops_at_rejection_witness:
  "\<exists>s'. executeAll flaky_env counting_tasks (RateLimiter 1000 (new_world 5000))
          = Some (Rejected ''boom'', s')
       \<and> length (submitted s') = 2
       \<and> settled s' = [(0, Resolved 0), (1, Rejected ''boom'')]
       \<and> calls (world s') = 2"
proof -
  define t0 :: "(string, nat) task" where
    "t0 = (\<lambda>w. (Resolved (calls w), w\<lparr> calls := Suc (calls w) \<rparr>))"
  define t1 :: "(string, nat) task" where
    "t1 = (\<lambda>w. (Rejected ''boom'', w\<lparr> calls := Suc (calls w) \<rparr>))"
  define t2 :: "(string, nat) task" where "t2 = (\<lambda>w. (Resolved (calls w), w))"
  have ct: "counting_tasks = [t0] @ t1 # [t2]"
    by (simp add: counting_tasks_def t0_def t1_def t2_def)
  have h: "fst (drain_spec flaky_env 1000 0 ([t0] @ [t1]) (new_world 5000))
      = map Resolved [0] @ [Rejected ''boom'']"
    unfolding t0_def t1_def by code_simp
  have w: "calls (fst (snd (drain_spec flaky_env 1000 0 ([t0] @ [t1]) (new_world 5000)))) = 2"
    unfolding t0_def t1_def by code_simp
  from executeAll_stops_at_rejection[OF h, of "[t2]"]
  obtain s' where r:
    "executeAll flaky_env ([t0] @ t1 # [t2]) (RateLimiter 1000 (new_world 5000))
       = Some (Rejected ''boom'', s')"
    "submitted s' = [t0] @ [t1]"
    "settled s' = zip [0..<Suc (length [t0])] (map Resolved [0] @ [Rejected ''boom''])"
    "world s' = fst (snd (drain_spec flaky_env 1000 0 ([t0] @ [t1]) (new_world 5000)))"
    by blast
  from r(2) have a: "length (submitted s') = 2" by simp
  from r(3) have b: "settled s' = [(0, Resolved 0), (1, Rejected ''boom'')]"
    by (simp add: upt_rec)
  from r(4) w have c: "calls (world s') = 2" by simp
  from r(1) a b c show ?thesis unfolding ct by blast
qed

section \<open>The whole run\<close>

text \<open>What a retrying fetch resolves with is the empty array or what some response
  carried.\<close>

lemma retry_value:
  "\<exists>v w'. fetchBatchWithRetry env cfg b idx r w = (Resolved v, w')
      \<and> (v = Array [] \<or> (\<exists>k. post env k b = Inr v))
      \<and> output_file w' = output_file w \<and> this_results w' = this_results w"
proof (induction env cfg b idx r w rule: fetchBatchWithRetry.induct)
  case (1 env cfg b idx r w)
  obtain res w1 where f: "fetchDeviceData env b w = (res, w1)" by (cases "fetchDeviceData env b w")
  then have w1: "output_file w1 = output_file w" "this_results w1 = this_results w"
    by (auto simp: fetchDeviceData_def Let_def split: sum.splits)
  show ?case
  proof (cases res)
    case (Inr v)
    with f have "post env (calls w) b = Inr v"
      by (auto simp: fetchDeviceData_def Let_def split: sum.splits)
    then show ?thesis using f w1 Inr by (subst fetchBatchWithRetry.simps) auto
  next
    case (Inl m)
    show ?thesis
    proof (cases "r < MAX_RETRIES cfg")
      case True
      from "1.IH"[OF f[symmetric] Inl True]
      obtain v w' where
        "fetchBatchWithRetry env cfg b idx (r + 1) (sleep env (RETRY_DELAY_MS cfg) w1) = (Resolved v, w')"
        "v = Array [] \<or> (\<exists>k. post env k b = Inr v)"
        "output_file w' = output_file (sleep env (RETRY_DELAY_MS cfg) w1)"
        "this_results w' = this_results (sleep env (RETRY_DELAY_MS cfg) w1)"
        by blast
      then show ?thesis using f Inl True w1
        by (subst fetchBatchWithRetry.simps) (simp add: sleep_def)
    next
      case False
      then show ?thesis using f Inl w1 by (subst fetchBatchWithRetry.simps) simp
    qed
  qed
qed

text \<open>Tasks that always resolve, and leave the collected results and the output file
  alone, make \<^verbatim>\<open>executeAll\<close> resolve with their results, each of which has whatever
  property all their results have.\<close>

lemma executeAll_loop_resolving:
  assumes "control_inv s" "order_inv s" "loops s = []"
    and "\<forall>t\<in>set ts. \<forall>w. \<exists>r w'. t w = (Resolved r, w') \<and> Q r
            \<and> output_file w' = output_file w \<and> this_results w' = this_results w"
  shows "\<exists>rs s'. executeAll_loop env ts acc s = Some (Resolved (acc @ rs), s')
           \<and> (\<forall>r\<in>set rs. Q r)
           \<and> output_file (world s') = output_file (world s)
           \<and> this_results (world s') = this_results (world s)"
  using assms
proof (induction ts arbitrary: acc s)
  case Nil
  then show ?case by simp
next
  case (Cons t ts)
  define w1 where "w1 = (if 0 < max 0 (intervalMs s - (now (world s) - lastRequestTime s))
       then sleep env (max 0 (intervalMs s - (now (world s) - lastRequestTime s))) (world s)
       else world s)"
  have k: "output_file w1 = output_file (world s)" "this_results w1 = this_results (world s)"
    by (simp_all add: w1_def sleep_def)
  from awaitSchedule_idle[OF Cons.prems(1-3) w1_def, of t]
  obtain s1 where a: "awaitSchedule env t s = Some (fst (t w1), s1)"
    "control_inv s1" "order_inv s1" "loops s1 = []" "world s1 = snd (t w1)"
    by blast
  from Cons.prems(4) obtain r w' where t: "t w1 = (Resolved r, w')" "Q r"
    "output_file w' = output_file w1" "this_results w' = this_results w1"
    by (meson list.set_intros(1))
  from Cons.prems(4) have rest: "\<forall>t\<in>set ts. \<forall>w. \<exists>r w'. t w = (Resolved r, w') \<and> Q r
            \<and> output_file w' = output_file w \<and> this_results w' = this_results w"
    by simp
  from Cons.IH[OF a(2-4) rest, of "acc @ [r]"]
  obtain rs s' where b: "executeAll_loop env ts (acc @ [r]) s1 = Some (Resolved ((acc @ [r]) @ rs), s')"
    "\<forall>r\<in>set rs. Q r"
    "output_file (world s') = output_file (world s1)"
    "this_results (world s') = this_results (world s1)"
    by blast
  have "executeAll_loop env (t # ts) acc s = Some (Resolved (acc @ (r # rs)), s')"
    using a(1) t(1) b(1) by simp
  moreover have "\<forall>x\<in>set (r # rs). Q x" using t(2) b(2) by simp
  moreover have "output_file (world s') = output_file (world s)"
    "this_results (world s') = this_results (world s)"
    using b(3,4) a(5) t k by simp_all
  ultimately show ?case by blast
qed

text \<open>\<^verbatim>\<open>fetchAllData\<close> from an idle limiter resolves, whatever the transport does, and
  every record it collects was in a response.\<close>

lemma fetchAllData_resolves:
  assumes "control_inv s" "order_inv s" "loops s = []"
  shows "\<exists>ds s'. fetchAllData env cfg batches s = Some (Resolved ds, s')
           \<and> output_file (world s') = output_file (world s)
           \<and> (\<forall>d\<in>set ds. \<exists>k b v. post env k b = Inr v \<and> d \<in> set (spread v))"
proof -
  let ?tasks = "map (\<lambda>(index, batch_sns). fetchBatchWithRetry env cfg batch_sns index 0)
                    (enumerate 0 batches)"
  let ?Q = "\<lambda>v. v = Array [] \<or> (\<exists>k b. post env k b = Inr v)"
  have "\<forall>t\<in>set ?tasks. \<forall>w. \<exists>r w'. t w = (Resolved r, w') \<and> ?Q r
            \<and> output_file w' = output_file w \<and> this_results w' = this_results w"
    using retry_value[of env cfg] by (auto; blast)
  from executeAll_loop_resolving[OF assms, of ?tasks ?Q env "[]", OF this]
  obtain rs s' where r: "executeAll_loop env ?tasks [] s = Some (Resolved rs, s')"
    "\<forall>r\<in>set rs. ?Q r"
    "output_file (world s') = output_file (world s)" by auto
  have "\<exists>k b v. post env k b = Inr v \<and> d \<in> set (spread v)" if "d \<in> set (flat rs)" for d
  proof -
    from that obtain v where v: "v \<in> set rs" "d \<in> set (spread v)" by (auto simp: flat_def)
    with r(2) have "v = Array [] \<or> (\<exists>k b. post env k b = Inr v)" by blast
    with v(2) show ?thesis by auto
  qed
  with r(1,3) show ?thesis by (auto simp: fetchAllData_def executeAll_def)
qed

lemma world_update_invs:
  "control_inv (s\<lparr> world := w \<rparr>) = control_inv s" "order_inv (s\<lparr> world := w \<rparr>) = order_inv s"
  by (simp_all add: control_inv_def order_inv_def)

lemma probe_world:
  "output_file (snd (testConnection env w)) = output_file w"
  "this_results (snd (testConnection env w)) = this_results w"
  "this_errors (snd (testConnection env w)) = this_errors w"
  "calls (snd (testConnection env w)) = Suc (calls w)"
  "fst (testConnection env w) \<longleftrightarrow> \<not> isl (post env (calls w) [''SN-000''])"
  by (auto simp: testConnection_def fetchDeviceData_def Let_def split: sum.splits prod.splits)


lemma saveResults_world:
  "this_results (saveResults env cfg ds w) = this_results w"
  "this_errors (saveResults env cfg ds w) = this_errors w"
  "now (saveResults env cfg ds w) = now w"
  "output_file (saveResults env cfg ds w) =
     (if mkdir_ok env \<and> writeFile_ok env
      then Some \<lparr> totalDevices = TOTAL_DEVICES cfg, successfulFetches = length ds,
                  failedFetches = length (this_errors w), timestamp = now w,
                  data = ds, errors = this_errors w \<rparr>
      else output_file w)"
  by (simp_all add: saveResults_def Let_def)





text \<open>Scheduling one retrying fetch on an idle limiter and awaiting it, when the request
  succeeds after \<open>R\<close> failures, and when every request fails; the requests are counted from
  the number of requests made before.\<close>

lemma idle_world:
  "w1 = (if 0 < max 0 (intervalMs s - (now (world s) - lastRequestTime s))
         then sleep env (max 0 (intervalMs s - (now (world s) - lastRequestTime s))) (world s)
         else world s) \<Longrightarrow>
   calls w1 = calls (world s) \<and> this_errors w1 = this_errors (world s)"
  by (simp add: sleep_def)

lemma serve_ok:
  assumes "control_inv s" "order_inv s" "loops s = []"
    and "R \<le> MAX_RETRIES cfg"
    and "\<forall>k<R. isl (post env (calls (world s) + k) b)"
    and "post env (calls (world s) + R) b = Inr v"
  shows "\<exists>s'. awaitSchedule env (fetchBatchWithRetry env cfg b i 0) s = Some (Resolved v, s')
           \<and> control_inv s' \<and> order_inv s' \<and> loops s' = []
           \<and> calls (world s') = calls (world s) + R + 1
           \<and> this_errors (world s') = this_errors (world s)"
proof -
  define w1 where "w1 = (if 0 < max 0 (intervalMs s - (now (world s) - lastRequestTime s))
       then sleep env (max 0 (intervalMs s - (now (world s) - lastRequestTime s))) (world s)
       else world s)"
  from idle_world[OF w1_def] have k: "calls w1 = calls (world s)"
    "this_errors w1 = this_errors (world s)" by simp_all
  from awaitSchedule_idle[OF assms(1-3) w1_def, of "fetchBatchWithRetry env cfg b i 0"]
  obtain s' where a:
    "awaitSchedule env (fetchBatchWithRetry env cfg b i 0) s
       = Some (fst (fetchBatchWithRetry env cfg b i 0 w1), s')"
    "control_inv s'" "order_inv s'" "loops s' = []"
    "world s' = snd (fetchBatchWithRetry env cfg b i 0 w1)"
    by blast
  from retry_succeeds[of 0 R cfg env w1 b v i] assms(4-6) k
  obtain w' where "fetchBatchWithRetry env cfg b i 0 w1 = (Resolved v, w')"
    "calls w' = calls w1 + R + 1" "this_errors w' = this_errors w1" by auto
  with a k show ?thesis by auto
qed

lemma serve_fail:
  assumes "control_inv s" "order_inv s" "loops s = []"
    and "\<forall>k \<le> MAX_RETRIES cfg. isl (post env (calls (world s) + k) b)"
  shows "\<exists>s' m. awaitSchedule env (fetchBatchWithRetry env cfg b i 0) s
                    = Some (Resolved (Array []), s')
           \<and> control_inv s' \<and> order_inv s' \<and> loops s' = []
           \<and> calls (world s') = calls (world s) + MAX_RETRIES cfg + 1
           \<and> this_errors (world s') =
                this_errors (world s) @ [\<lparr> batch = i + 1, serialNumbers = b, error = m \<rparr>]"
proof -
  define w1 where "w1 = (if 0 < max 0 (intervalMs s - (now (world s) - lastRequestTime s))
       then sleep env (max 0 (intervalMs s - (now (world s) - lastRequestTime s))) (world s)
       else world s)"
  from idle_world[OF w1_def] have k: "calls w1 = calls (world s)"
    "this_errors w1 = this_errors (world s)" by simp_all
  from awaitSchedule_idle[OF assms(1-3) w1_def, of "fetchBatchWithRetry env cfg b i 0"]
  obtain s' where a:
    "awaitSchedule env (fetchBatchWithRetry env cfg b i 0) s
       = Some (fst (fetchBatchWithRetry env cfg b i 0 w1), s')"
    "control_inv s'" "order_inv s'" "loops s' = []"
    "world s' = snd (fetchBatchWithRetry env cfg b i 0 w1)"
    by blast
  from retry_exhausted[of 0 cfg env w1 b i] assms(4) k
  obtain w' m where "fetchBatchWithRetry env cfg b i 0 w1 = (Resolved (Array []), w')"
    "calls w' = calls w1 + MAX_RETRIES cfg + 1"
    "this_errors w' = this_errors w1 @ [\<lparr> batch = i + 1, serialNumbers = b, error = m \<rparr>]"
    by auto
  with a k show ?thesis by auto
qed

text \<open>
  C1 (as the specification states it): with 23 devices in batches of 10 and a second batch
  that fails on every attempt, the report shows \<open>failedFetches = 10\<close>.  The report counts
  failure entries, not serial numbers: it shows 1.
\<close>

theorem failedFetches_counterexample:
  "map_option failedFetches (report_of (run batch2_fails_env cfg23 (DataAggregator cfg23 0)))
     = Some 1"
  by code_simp

text \<open>
  C1 (amended).  A population of 23 devices with batch size 10 is split into three
  batches of sizes 10, 10 and 3.  Suppose the probe succeeds; the first batch succeeds,
  after \<open>R1\<close> failed attempts with \<open>R1\<close> at most the number of retries, with an array of
  one record per serial number; every attempt for the second batch fails; and the third
  batch succeeds after \<open>R3\<close> failed attempts in the same way.  (The requests of a run are
  numbered in the order they are made: the probe is request 0.)  Then the run ends, and
  the report, which exists exactly when the output directory can be created and the file
  written, shows \<open>successfulFetches = 13\<close> and \<open>failedFetches = 1\<close> (one failure entry),
  holds the records of the first and third batch, and its \<open>errors\<close> is one entry, with
  batch number 2 and the 10 serial numbers of the second batch.
\<close>

theorem report_counts_23:
  assumes cfg: "TOTAL_DEVICES cfg = 23" "BATCH_SIZE cfg = 10" "DEVICE_SN_PREFIX cfg = ''SN-''"
    and probe: "\<not> isl (post env 0 [''SN-000''])"
    and first: "R1 \<le> MAX_RETRIES cfg" "\<forall>k<R1. isl (post env (1 + k) first_batch)"
      "post env (1 + R1) first_batch = Inr (Array ds1)" "length ds1 = length first_batch"
    and second: "\<forall>k \<le> MAX_RETRIES cfg. isl (post env (R1 + 2 + k) second_batch)"
    and third: "R3 \<le> MAX_RETRIES cfg"
      "\<forall>k<R3. isl (post env (R1 + MAX_RETRIES cfg + 3 + k) third_batch)"
      "post env (R1 + MAX_RETRIES cfg + 3 + R3) third_batch = Inr (Array ds3)"
      "length ds3 = length third_batch"
  shows "\<exists>ex s'.
           createBatches (generateSerialNumbers (TOTAL_DEVICES cfg) (DEVICE_SN_PREFIX cfg))
             (BATCH_SIZE cfg) = Some [first_batch, second_batch, third_batch]
         \<and> map length [first_batch, second_batch, third_batch] = [10, 10, 3]
         \<and> run env cfg (DataAggregator cfg t0) = Some (ex, s')
         \<and> (mkdir_ok env \<and> writeFile_ok env \<longrightarrow>
              (\<exists>r. output_file (world s') = Some r
                 \<and> successfulFetches r = 13 \<and> failedFetches r = 1
                 \<and> data r = ds1 @ ds3
                 \<and> map batch (errors r) = [2]
                 \<and> map serialNumbers (errors r) = [second_batch]))
         \<and> (\<not> (mkdir_ok env \<and> writeFile_ok env) \<longrightarrow> output_file (world s') = None)"
proof -
  have bs: "createBatches (generateSerialNumbers (TOTAL_DEVICES cfg) (DEVICE_SN_PREFIX cfg))
             (BATCH_SIZE cfg) = Some [first_batch, second_batch, third_batch]"
    unfolding cfg first_batch_def second_batch_def third_batch_def by code_simp
  have len: "length first_batch = 10" "length second_batch = 10" "length third_batch = 3"
    by (simp_all add: first_batch_def second_batch_def third_batch_def)
  define s0 where "s0 = (DataAggregator cfg t0 :: ('a, 'a jsvalue) limiter)"
  have w0: "calls (world s0) = 0" "this_errors (world s0) = []" "output_file (world s0) = None"
    by (simp_all add: s0_def DataAggregator_def RateLimiter_def new_world_def)
  have inv0: "control_inv s0" "order_inv s0" "loops s0 = []"
    by (simp_all add: s0_def DataAggregator_def initial_invs) (simp add: RateLimiter_def)
  obtain ok w1 where pr: "testConnection env (world s0) = (ok, w1)"
    by (cases "testConnection env (world s0)")
  with probe_world[of env "world s0"] w0 probe
  have w1: "ok" "this_errors w1 = []" "calls w1 = 1" "output_file w1 = None" by simp_all
  define sa where "sa = s0\<lparr> world := w1 \<rparr>"
  have inva: "control_inv sa" "order_inv sa" "loops sa = []"
    using inv0 by (simp_all add: sa_def world_update_invs)
  have wa: "this_errors (world sa) = []" "calls (world sa) = 1" "output_file (world sa) = None"
    using w1 by (simp_all add: sa_def)
  let ?f = "\<lambda>b i. fetchBatchWithRetry env cfg b i 0"
  have f1: "\<forall>k<R1. isl (post env (calls (world sa) + k) first_batch)"
    "post env (calls (world sa) + R1) first_batch = Inr (Array ds1)"
    using first(2,3) wa(2) by simp_all
  from serve_ok[OF inva first(1) f1, of 0] wa
  obtain sb where A: "awaitSchedule env (?f first_batch 0) sa = Some (Resolved (Array ds1), sb)"
    "control_inv sb" "order_inv sb" "loops sb = []"
    "calls (world sb) = R1 + 2" "this_errors (world sb) = []" by auto
  have f2: "\<forall>k \<le> MAX_RETRIES cfg. isl (post env (calls (world sb) + k) second_batch)"
    using second A(5) by simp
  from serve_fail[OF A(2-4) f2, of "Suc 0"] A(5,6)
  obtain sc m where B: "awaitSchedule env (?f second_batch (Suc 0)) sb
        = Some (Resolved (Array []), sc)"
    "control_inv sc" "order_inv sc" "loops sc = []"
    "calls (world sc) = R1 + MAX_RETRIES cfg + 3"
    "this_errors (world sc) = [\<lparr> batch = 2, serialNumbers = second_batch, error = m \<rparr>]"
    by auto
  have f3: "\<forall>k<R3. isl (post env (calls (world sc) + k) third_batch)"
    "post env (calls (world sc) + R3) third_batch = Inr (Array ds3)"
    using third(2,3) B(5) by simp_all
  from serve_ok[OF B(2-4) third(1) f3, of "Suc (Suc 0)"] B(6)
  obtain sd where C: "awaitSchedule env (?f third_batch (Suc (Suc 0))) sc
        = Some (Resolved (Array ds3), sd)"
    "this_errors (world sd) = [\<lparr> batch = 2, serialNumbers = second_batch, error = m \<rparr>]"
    by auto
  have fa: "fetchAllData env cfg [first_batch, second_batch, third_batch] sa
              = Some (Resolved (ds1 @ ds3), sd)"
    using A(1) B(1) C(1) by (simp add: fetchAllData_def executeAll_def flat_def)
  have inv1: "control_inv sa" "order_inv sa" "loops sa = []" by (rule inva)+
  from fetchAllData_resolves[OF inv1, of env cfg "[first_batch, second_batch, third_batch]"] fa wa(3)
  have none: "output_file (world sd) = None" by auto
  define w3 where "w3 = saveResults env cfg (ds1 @ ds3) ((world sd)\<lparr> this_results := ds1 @ ds3 \<rparr>)"
  define ex where "ex = (case displaySummary (ds1 @ ds3) of Some m \<Rightarrow> Fatal m | None \<Rightarrow> Completed)"
  define se where "se = sd\<lparr> world := w3 \<rparr>"
  have se: "world se = w3" by (simp add: se_def)
  have r: "run env cfg s0 = Some (ex, se)"
    using w1(1) pr bs fa
    by (simp add: run_def w3_def sa_def ex_def se_def Let_def split: option.splits)
  have out: "output_file w3 = (if mkdir_ok env \<and> writeFile_ok env
       then Some \<lparr> totalDevices = 23, successfulFetches = 13, failedFetches = 1,
                   timestamp = now (world sd), data = ds1 @ ds3,
                   errors = [\<lparr> batch = 2, serialNumbers = second_batch, error = m \<rparr>] \<rparr>
       else None)"
    using C(2) first(4) third(4) len cfg none by (simp add: w3_def saveResults_world)
  have yes: "mkdir_ok env \<and> writeFile_ok env \<longrightarrow>
              (\<exists>r. output_file (world se) = Some r
                 \<and> successfulFetches r = 13 \<and> failedFetches r = 1
                 \<and> data r = ds1 @ ds3
                 \<and> map batch (errors r) = [2]
                 \<and> map serialNumbers (errors r) = [second_batch])"
    unfolding se using out by simp
  have no: "\<not> (mkdir_ok env \<and> writeFile_ok env) \<longrightarrow> output_file (world se) = None"
    unfolding se using out by simp
  have sizes: "map length [first_batch, second_batch, third_batch] = [10, 10, 3]"
    using len by simp
  show ?thesis unfolding s0_def[symmetric]
    apply (rule exI[of _ ex], rule exI[of _ se])
    apply (intro conjI)
        apply (rule bs)
       apply (rule sizes)
      apply (rule r)
     apply (rule yes)
    apply (rule no)
    done
qed

text \<open>A run in which the first request for the first batch fails and its retry succeeds,
  and a run that cannot create the output directory.\<close>

theorem report_counts_23_witness:
  "(\<exists>ex s' r.
      createBatches (generateSerialNumbers (TOTAL_DEVICES cfg23) (DEVICE_SN_PREFIX cfg23))
        (BATCH_SIZE cfg23) = Some [first_batch, second_batch, third_batch]
    \<and> run transient_env cfg23 (DataAggregator cfg23 0) = Some (ex, s')
    \<and> output_file (world s') = Some r
    \<and> successfulFetches r = 13 \<and> failedFetches r = 1
    \<and> data r = map Device first_batch @ map Device third_batch
    \<and> map batch (errors r) = [2] \<and> map serialNumbers (errors r) = [second_batch])
   \<and> (\<exists>ex s'. run no_disk_env cfg23 (DataAggregator cfg23 0) = Some (ex, s')
         \<and> output_file (world s') = None)"
proof -
  have c: "TOTAL_DEVICES cfg23 = 23" "BATCH_SIZE cfg23 = 10" "DEVICE_SN_PREFIX cfg23 = ''SN-''"
    by (simp_all add: cfg23_def constants_def)
  have m: "MAX_RETRIES cfg23 = 3" by (simp add: cfg23_def constants_def)
  have probe: "\<not> isl (post transient_env 0 [''SN-000''])"
    by (simp add: transient_env_def second_batch_def)
  have first: "Suc 0 \<le> MAX_RETRIES cfg23"
    "\<forall>k<Suc 0. isl (post transient_env (1 + k) first_batch)"
    "post transient_env (1 + Suc 0) first_batch = Inr (Array (map Device first_batch))"
    "length (map Device first_batch) = length first_batch"
    by (simp_all add: m transient_env_def first_batch_def second_batch_def)
  have second: "\<forall>k \<le> MAX_RETRIES cfg23. isl (post transient_env (Suc 0 + 2 + k) second_batch)"
    by (simp add: transient_env_def)
  have third: "0 \<le> MAX_RETRIES cfg23"
    "\<forall>k<0. isl (post transient_env (Suc 0 + MAX_RETRIES cfg23 + 3 + k) third_batch)"
    "post transient_env (Suc 0 + MAX_RETRIES cfg23 + 3 + 0) third_batch
       = Inr (Array (map Device third_batch))"
    "length (map Device third_batch) = length third_batch"
    by (simp_all add: transient_env_def first_batch_def second_batch_def third_batch_def)
  have disk: "mkdir_ok transient_env \<and> writeFile_ok transient_env"
    by (simp add: transient_env_def)
  have probe': "\<not> isl (post no_disk_env 0 [''SN-000''])"
    by (simp add: no_disk_env_def batch2_fails_env_def second_batch_def)
  have first': "0 \<le> MAX_RETRIES cfg23"
    "\<forall>k<0. isl (post no_disk_env (1 + k) first_batch)"
    "post no_disk_env (1 + 0) first_batch = Inr (Array (map Device first_batch))"
    "length (map Device first_batch) = length first_batch"
    by (simp_all add: no_disk_env_def batch2_fails_env_def first_batch_def second_batch_def)
  have second': "\<forall>k \<le> MAX_RETRIES cfg23. isl (post no_disk_env (0 + 2 + k) second_batch)"
    by (simp add: no_disk_env_def batch2_fails_env_def)
  have third': "0 \<le> MAX_RETRIES cfg23"
    "\<forall>k<0. isl (post no_disk_env (0 + MAX_RETRIES cfg23 + 3 + k) third_batch)"
    "post no_disk_env (0 + MAX_RETRIES cfg23 + 3 + 0) third_batch
       = Inr (Array (map Device third_batch))"
    "length (map Device third_batch) = length third_batch"
    by (simp_all add: no_disk_env_def batch2_fails_env_def second_batch_def third_batch_def)
  have disk': "\<not> (mkdir_ok no_disk_env \<and> writeFile_ok no_disk_env)"
    by (simp add: no_disk_env_def)
  from report_counts_23[OF c probe first second third, of 0] disk
  have one: "\<exists>ex s' r.
      createBatches (generateSerialNumbers (TOTAL_DEVICES cfg23) (DEVICE_SN_PREFIX cfg23))
        (BATCH_SIZE cfg23) = Some [first_batch, second_batch, third_batch]
    \<and> run transient_env cfg23 (DataAggregator cfg23 0) = Some (ex, s')
    \<and> output_file (world s') = Some r
    \<and> successfulFetches r = 13 \<and> failedFetches r = 1
    \<and> data r = map Device first_batch @ map Device third_batch
    \<and> map batch (errors r) = [2] \<and> map serialNumbers (errors r) = [second_batch]"
    by auto
  from report_counts_23[OF c probe' first' second' third', of 0] disk'
  have two: "\<exists>ex s'. run no_disk_env cfg23 (DataAggregator cfg23 0) = Some (ex, s')
         \<and> output_file (world s') = None"
    by auto
  from one two show ?thesis by (rule conjI)
qed

end
